theory Spec2Isabelle
  imports Main "HOL-Library.Word" "HOL-Library.AList" "HOL-Library.Multiset"
begin

section \<open>Data model (types.ts)\<close>

datatype ConversionStatus = IDLE | QUEUED | PROCESSING | COMPLETED | ERROR

text \<open>
  A browser \<^verbatim>\<open>File\<close>: its display name and the bytes that
  \<^verbatim>\<open>file.arrayBuffer()\<close> resolves to.
\<close>

record File =
  name :: string
  arrayBuffer :: "8 word list"

text \<open>
  The jsPDF object, as far as \<^verbatim>\<open>convertImageToPDF\<close> drives it: the constructor
  options, and per page the \<^verbatim>\<open>addImage\<close> calls made on it. The library itself is
  not part of the repository; a document is the record of what the code asked for.
\<close>

record AddedImage =
  imageData :: "8 word list"
  imageFormat :: string
  posX :: nat
  posY :: nat
  drawWidth :: nat
  drawHeight :: nat
  imageAlias :: "string option"
  compression :: string

record Page =
  pageFormat :: "nat \<times> nat"
  pageImages :: "AddedImage list"

record jsPDF =
  orientation :: string
  unit :: string
  hotfixes :: "string list"
  pages :: "Page list"

text \<open>
  A \<^verbatim>\<open>Blob\<close> is either the output of a jsPDF document or a generated ZIP archive.
  An archive is the JSZip file table in insertion order: a path with \<open>None\<close> is a
  folder entry, with \<open>Some b\<close> a file holding \<open>b\<close>.
\<close>

datatype Blob = PdfBlob jsPDF | ZipBlob "(string \<times> Blob option) list"

record FileData =
  uid :: string
  file_obj :: File
  previewUrl :: string
  status :: ConversionStatus
  pdfBlob :: "Blob option"
  error :: "string option"
  width :: "nat option"
  height :: "nat option"

record ProcessingStats =
  total :: nat
  processed :: nat
  success :: nat
  failed :: nat
  startTime :: "nat option"
  endTime :: "nat option"

section \<open>The host: image decoding, jsPDF and JSZip\<close>

text \<open>
  What the browser and the two libraries decide, taken as parameters:
  \<^item> \<open>imageLoad url\<close>: the natural size an \<^verbatim>\<open>Image\<close> element reports in
    \<^verbatim>\<open>onload\<close> for that URL, or \<open>None\<close> when \<^verbatim>\<open>onerror\<close> fires;
  \<^item> \<open>addImageAccepts bytes\<close>: whether \<^verbatim>\<open>addImage\<close> takes the bytes as a
    JPEG (it throws otherwise);
  \<^item> \<open>zipGenerates table\<close>: whether \<^verbatim>\<open>generateAsync\<close> resolves for that file
    table (it rejects otherwise).
\<close>

record Host =
  imageLoad :: "string \<Rightarrow> (nat \<times> nat) option"
  addImageAccepts :: "8 word list \<Rightarrow> bool"
  zipGenerates :: "(string \<times> Blob option) list \<Rightarrow> bool"

text \<open>
  The ways a conversion throws: the rejected promise of \<^verbatim>\<open>getImageDimensions\<close>
  (the spec's ProbeError) and an exception of \<^verbatim>\<open>addImage\<close> (the spec's
  EncodingError).
\<close>

datatype ConversionError = ProbeError | EncodingError

datatype ArchiveError = ArchiveError

section \<open>The converter (utils/pdfConverter.ts)\<close>

definition getImageDimensions :: "Host \<Rightarrow> string \<Rightarrow> ConversionError + (nat \<times> nat)" where
  "getImageDimensions host url =
     (case imageLoad host url of
        None \<Rightarrow> Inl ProbeError
      | Some (naturalWidth, naturalHeight) \<Rightarrow> Inr (naturalWidth, naturalHeight))"

text \<open>\<^verbatim>\<open>new jsPDF({orientation, unit, format, hotfixes})\<close>: a document of one page.\<close>

definition new_jsPDF :: "string \<Rightarrow> string \<Rightarrow> nat \<times> nat \<Rightarrow> string list \<Rightarrow> jsPDF" where
  "new_jsPDF orient un fmt fixes =
     \<lparr>orientation = orient, unit = un, hotfixes = fixes,
      pages = [\<lparr>pageFormat = fmt, pageImages = []\<rparr>]\<rparr>"

text \<open>
  \<^verbatim>\<open>pdf.addImage(data, format, x, y, w, h, alias, compression)\<close>: draws on the
  current (last) page, or throws.
\<close>

definition addImage ::
  "Host \<Rightarrow> jsPDF \<Rightarrow> 8 word list \<Rightarrow> string \<Rightarrow> nat \<Rightarrow> nat \<Rightarrow> nat \<Rightarrow> nat \<Rightarrow>
     string option \<Rightarrow> string \<Rightarrow> ConversionError + jsPDF" where
  "addImage host pdf dat fmt px py w h al cmpr =
     (if addImageAccepts host dat \<and> pages pdf \<noteq> [] then
        Inr (pdf\<lparr>pages := butlast (pages pdf) @
               [(last (pages pdf))\<lparr>pageImages := pageImages (last (pages pdf)) @
                  [\<lparr>imageData = dat, imageFormat = fmt, posX = px, posY = py,
                    drawWidth = w, drawHeight = h, imageAlias = al, compression = cmpr\<rparr>]\<rparr>]\<rparr>)
      else Inl EncodingError)"

definition output_blob :: "jsPDF \<Rightarrow> Blob" where
  "output_blob pdf = PdfBlob pdf"

text \<open>
  The \<^verbatim>\<open>catch\<close> of \<^verbatim>\<open>convertImageToPDF\<close> logs and rethrows, so every
  failure of the body is the failure of the function.
\<close>

definition convertImageToPDF :: "Host \<Rightarrow> FileData \<Rightarrow> ConversionError + Blob" where
  "convertImageToPDF host fileData =
     (case getImageDimensions host (previewUrl fileData) of
        Inl err \<Rightarrow> Inl err
      | Inr (w, h) \<Rightarrow>
          (let orient = (if w > h then ''l'' else ''p'');
               pdf = new_jsPDF orient ''px'' (w, h) [''px_scaling''];
               uint8Array = arrayBuffer (file_obj fileData)
           in case addImage host pdf uint8Array ''JPEG'' 0 0 w h None ''FAST'' of
                Inl err \<Rightarrow> Inl err
              | Inr pdf' \<Rightarrow> Inr (output_blob pdf')))"

text \<open>The image streams a document blob holds, page by page.\<close>

fun embeddedStreams :: "Blob \<Rightarrow> 8 word list list" where
  "embeddedStreams (PdfBlob pdf) = map imageData (concat (map pageImages (pages pdf)))"
| "embeddedStreams (ZipBlob table) = []"

section \<open>The packager (createZipFromFiles, handleDownloadZip)\<close>

text \<open>
  \<^verbatim>\<open>name.replace(/\.[^/.]+$/, "")\<close>: the first position from which the rest of
  the string is a dot followed by at least one character, none of them a dot or a
  slash, is where the string is cut.
\<close>

fun replaceExtension :: "string \<Rightarrow> string" where
  "replaceExtension [] = []"
| "replaceExtension (c # cs) =
     (if c = CHR ''.'' \<and> cs \<noteq> [] \<and> list_all (\<lambda>d. d \<noteq> CHR ''/'' \<and> d \<noteq> CHR ''.'') cs
      then [] else c # replaceExtension cs)"

definition pdfFileName :: "FileData \<Rightarrow> string" where
  "pdfFileName f = replaceExtension (name (file_obj f)) @ ''.pdf''"

text \<open>
  JSZip: \<^verbatim>\<open>zip.folder(n)\<close> adds the folder entry \<open>n/\<close> and answers a view rooted
  there; \<^verbatim>\<open>folder.file(n, data)\<close> sets the entry at root + \<open>n\<close>, replacing
  an entry of that path.
\<close>

definition zip_folder :: "string \<Rightarrow> (string \<times> Blob option) list \<Rightarrow> (string \<times> Blob option) list" where
  "zip_folder n table = AList.update (n @ ''/'') None table"

definition zip_file ::
  "string \<Rightarrow> string \<Rightarrow> Blob \<Rightarrow> (string \<times> Blob option) list \<Rightarrow> (string \<times> Blob option) list" where
  "zip_file root n dat table = AList.update (root @ ''/'' @ n) (Some dat) table"

definition generateAsync :: "Host \<Rightarrow> (string \<times> Blob option) list \<Rightarrow> ArchiveError + Blob" where
  "generateAsync host table = (if zipGenerates host table then Inr (ZipBlob table) else Inl ArchiveError)"

definition addConverted :: "(string \<times> Blob option) list \<Rightarrow> FileData \<Rightarrow> (string \<times> Blob option) list" where
  "addConverted table f =
     (case pdfBlob f of
        Some b \<Rightarrow> zip_file ''converted_pdfs'' (pdfFileName f) b table
      | None \<Rightarrow> table)"

definition createZipFromFiles :: "Host \<Rightarrow> FileData list \<Rightarrow> ArchiveError + Blob" where
  "createZipFromFiles host fileList =
     generateAsync host (foldl addConverted (zip_folder ''converted_pdfs'' []) fileList)"

text \<open>What \<^verbatim>\<open>handleDownloadZip\<close> does to the outside, in order.\<close>

datatype Effect = SaveAs Blob string | ConsoleError string | Alert string

definition completedFiles :: "FileData list \<Rightarrow> FileData list" where
  "completedFiles fileList = filter (\<lambda>f. status f = COMPLETED \<and> pdfBlob f \<noteq> None) fileList"

definition handleDownloadZip :: "Host \<Rightarrow> FileData list \<Rightarrow> Effect list" where
  "handleDownloadZip host fileList =
     (if length (completedFiles fileList) = 0 then []
      else (case createZipFromFiles host (completedFiles fileList) of
              Inr zipBlob \<Rightarrow> [SaveAs zipBlob ''converted_pdfs.zip'']
            | Inl err \<Rightarrow> [ConsoleError ''Error creating zip'', Alert ''Failed to create ZIP file.'']))"

section \<open>The application state and its handlers (App.tsx)\<close>

record AppState =
  files :: "FileData list"
  isProcessing :: bool
  stats :: ProcessingStats

definition initialStats :: ProcessingStats where
  "initialStats = \<lparr>total = 0, processed = 0, success = 0, failed = 0, startTime = None, endTime = None\<rparr>"

definition initialState :: AppState where
  "initialState = \<lparr>files = [], isProcessing = False, stats = initialStats\<rparr>"

text \<open>
  \<^verbatim>\<open>handleFilesAdded\<close>: each new file comes with the identifier that
  \<^verbatim>\<open>crypto.randomUUID()\<close> and the URL that \<^verbatim>\<open>URL.createObjectURL\<close> answered.
\<close>

definition newFileData :: "string \<times> string \<times> File \<Rightarrow> FileData" where
  "newFileData n =
     \<lparr>uid = fst n, file_obj = snd (snd n), previewUrl = fst (snd n), status = IDLE,
      pdfBlob = None, error = None, width = None, height = None\<rparr>"

definition handleFilesAdded :: "(string \<times> string \<times> File) list \<Rightarrow> AppState \<Rightarrow> AppState" where
  "handleFilesAdded newFiles s = s\<lparr>files := files s @ map newFileData newFiles\<rparr>"

text \<open>
  \<^verbatim>\<open>handleRemoveFile\<close>: the store loses the items of that identifier. (The handler
  also revokes the preview URL of the item it finds, an effect on the browser.)
\<close>

definition handleRemoveFile :: "string \<Rightarrow> AppState \<Rightarrow> AppState" where
  "handleRemoveFile i s = s\<lparr>files := filter (\<lambda>f. uid f \<noteq> i) (files s)\<rparr>"

definition handleClearAll :: "AppState \<Rightarrow> AppState" where
  "handleClearAll s = s\<lparr>files := [], stats := initialStats\<rparr>"

subsection \<open>processQueue\<close>

definition BATCH_SIZE :: nat where
  "BATCH_SIZE = 5"

text \<open>\<^verbatim>\<open>xs.slice(s, e)\<close> for indices that are not negative.\<close>

definition array_slice :: "'a list \<Rightarrow> nat \<Rightarrow> nat \<Rightarrow> 'a list" where
  "array_slice xs s e = take (e - s) (drop s xs)"

text \<open>The filter that builds \<^verbatim>\<open>queue\<close>.\<close>

definition eligible :: "FileData \<Rightarrow> bool" where
  "eligible f = (status f = IDLE \<or> status f = ERROR)"

text \<open>The updater under the comment "Mark all IDLE as QUEUED".\<close>

definition markQueued :: "FileData list \<Rightarrow> FileData list" where
  "markQueued prev = map (\<lambda>f. if status f = IDLE then f\<lparr>status := QUEUED\<rparr> else f) prev"

text \<open>
  \<^verbatim>\<open>updateFileStatus(id, updates)\<close>: the partial record \<^verbatim>\<open>updates\<close> is the
  function that overwrites its fields in an item.
\<close>

definition updateFileStatus :: "string \<Rightarrow> (FileData \<Rightarrow> FileData) \<Rightarrow> FileData list \<Rightarrow> FileData list" where
  "updateFileStatus i updates currentFiles = map (\<lambda>f. if uid f = i then updates f else f) currentFiles"

text \<open>\<^verbatim>\<open>processFile\<close> up to its \<^verbatim>\<open>await\<close>: the item is marked PROCESSING.\<close>

definition processFile_start :: "FileData \<Rightarrow> AppState \<Rightarrow> AppState" where
  "processFile_start f s = s\<lparr>files := updateFileStatus (uid f) (\<lambda>g. g\<lparr>status := PROCESSING\<rparr>) (files s)\<rparr>"

text \<open>\<^verbatim>\<open>processFile\<close> after its \<^verbatim>\<open>await\<close>: the outcome is recorded and counted.\<close>

definition processFile_settle :: "Host \<Rightarrow> FileData \<Rightarrow> AppState \<Rightarrow> AppState" where
  "processFile_settle host f s =
     (case convertImageToPDF host f of
        Inr blob \<Rightarrow>
          s\<lparr>files := updateFileStatus (uid f) (\<lambda>g. g\<lparr>status := COMPLETED, pdfBlob := Some blob\<rparr>) (files s),
            stats := (stats s)\<lparr>processed := processed (stats s) + 1, success := success (stats s) + 1\<rparr>\<rparr>
      | Inl err \<Rightarrow>
          s\<lparr>files := updateFileStatus (uid f) (\<lambda>g. g\<lparr>status := ERROR, error := Some ''Failed to convert''\<rparr>) (files s),
            stats := (stats s)\<lparr>processed := processed (stats s) + 1, failed := failed (stats s) + 1\<rparr>\<rparr>)"

text \<open>
  A run in progress: the React state, the closure's \<^verbatim>\<open>files\<close> (the store as it was
  when the run began) and \<^verbatim>\<open>queue\<close>, the loop variable \<^verbatim>\<open>i\<close>, the members of
  the current batch whose \<^verbatim>\<open>processFile\<close> promise is pending, and where the
  function is suspended.
\<close>

datatype Phase = Converting | Delaying | Finished

record Run =
  app :: AppState
  snapshot :: "FileData list"
  queue :: "FileData list"
  index :: nat
  inflight :: "FileData list"
  phase :: Phase

text \<open>
  The head of the \<^verbatim>\<open>for\<close> loop. While \<^verbatim>\<open>i < queue.length\<close> the batch
  \<^verbatim>\<open>queue.slice(i, i + BATCH_SIZE)\<close> is mapped through \<^verbatim>\<open>processFile\<close>, which
  marks each member before the function suspends on \<^verbatim>\<open>Promise.all\<close>. Otherwise
  the loop is left: \<^verbatim>\<open>endTime\<close> is set and \<^verbatim>\<open>isProcessing\<close> cleared.
\<close>

definition processQueue_loop :: "nat \<Rightarrow> Run \<Rightarrow> Run" where
  "processQueue_loop now r =
     (if index r < length (queue r) then
        (let batch = array_slice (queue r) (index r) (index r + BATCH_SIZE)
         in r\<lparr>app := foldl (\<lambda>s f. processFile_start f s) (app r) batch,
               inflight := batch, phase := Converting\<rparr>)
      else r\<lparr>app := (app r)\<lparr>stats := (stats (app r))\<lparr>endTime := Some now\<rparr>, isProcessing := False\<rparr>,
             phase := Finished\<rparr>)"

text \<open>
  \<^verbatim>\<open>processQueue\<close> from the click to its first suspension; \<open>now\<close> is the clock
  at the start, \<open>now'\<close> the clock read if the loop is left at once.
\<close>

definition processQueue_start :: "nat \<Rightarrow> nat \<Rightarrow> AppState \<Rightarrow> Run" where
  "processQueue_start now now' s =
     (let s1 = s\<lparr>isProcessing := True\<rparr>;
          s2 = s1\<lparr>stats := (stats s1)\<lparr>total := length (files s), processed := 0, startTime := Some now\<rparr>\<rparr>;
          s3 = s2\<lparr>files := markQueued (files s2)\<rparr>
      in processQueue_loop now'
           \<lparr>app = s3, snapshot = files s, queue = filter eligible (files s), index = 0,
            inflight = [], phase = Converting\<rparr>)"

text \<open>
  What can happen while a run is suspended:
  \<^item> \<open>Settle f\<close>: the conversion of the pending member \<open>f\<close> resolves or rejects;
  \<^item> \<open>WaveDone\<close>: every member has settled, \<^verbatim>\<open>Promise.all\<close> resolves and the
    50 ms timer is set;
  \<^item> \<open>Resume now\<close>: the timer fires, \<^verbatim>\<open>i += BATCH_SIZE\<close>, and the loop head runs;
  \<^item> \<open>FilesAdded\<close> and \<open>RemoveFile\<close>: the handlers, called from outside the run.
    An added item gets an identifier that no item of the store or of the run's
    closure has.

  The host is one and the same throughout a run. A removal also revokes a preview URL,
  which can change what the image element answers for an item still to be converted;
  the statements about the outcomes of conversions are therefore made for runs without
  a removal.
\<close>

datatype Event =
    Settle FileData
  | WaveDone
  | Resume nat
  | FilesAdded "(string \<times> string \<times> File) list"
  | RemoveFile string

fun step :: "Host \<Rightarrow> Run \<Rightarrow> Event \<Rightarrow> Run option" where
  "step host r (Settle f) =
     (if phase r = Converting \<and> f \<in> set (inflight r)
      then Some (r\<lparr>app := processFile_settle host f (app r), inflight := remove1 f (inflight r)\<rparr>)
      else None)"
| "step host r WaveDone =
     (if phase r = Converting \<and> inflight r = [] then Some (r\<lparr>phase := Delaying\<rparr>) else None)"
| "step host r (Resume now) =
     (if phase r = Delaying then Some (processQueue_loop now (r\<lparr>index := index r + BATCH_SIZE\<rparr>))
      else None)"
| "step host r (FilesAdded newFiles) =
     (if distinct (map fst newFiles)
         \<and> list_all (\<lambda>n. fst n \<notin> set (map uid (files (app r))) \<and> fst n \<notin> set (map uid (snapshot r))) newFiles
      then Some (r\<lparr>app := handleFilesAdded newFiles (app r)\<rparr>)
      else None)"
| "step host r (RemoveFile i) = Some (r\<lparr>app := handleRemoveFile i (app r)\<rparr>)"

fun exec :: "Host \<Rightarrow> Run \<Rightarrow> Event list \<Rightarrow> Run option" where
  "exec host r [] = Some r"
| "exec host r (e # es) = (case step host r e of None \<Rightarrow> None | Some r' \<Rightarrow> exec host r' es)"

text \<open>The batches the loop takes from index \<open>i\<close> on.\<close>

function batchesFrom :: "nat \<Rightarrow> 'a list \<Rightarrow> 'a list list" where
  "batchesFrom i q =
     (if i < length q then array_slice q i (i + BATCH_SIZE) # batchesFrom (i + BATCH_SIZE) q else [])"
  by pat_completeness auto
termination
  by (relation "measure (\<lambda>(i, q). length q - i)") (auto simp: BATCH_SIZE_def)

declare batchesFrom.simps [simp del]

text \<open>
  Reading a trace: the items settled between one firing of the timer and the next, in
  the order they settled (\<open>cur\<close> collects the group being read).
\<close>

fun settledWaves :: "FileData list \<Rightarrow> Event list \<Rightarrow> FileData list list" where
  "settledWaves cur [] = []"
| "settledWaves cur (Settle f # es) = settledWaves (cur @ [f]) es"
| "settledWaves cur (Resume now # es) = cur # settledWaves [] es"
| "settledWaves cur (e # es) = settledWaves cur es"

text \<open>
  The events that take an item out of the store, and the run that settles every batch
  in queue order.
\<close>

fun isRemoval :: "Event \<Rightarrow> bool" where
  "isRemoval (RemoveFile i) = True"
| "isRemoval e = False"

definition inOrder :: "nat \<Rightarrow> FileData list \<Rightarrow> Event list" where
  "inOrder now q = concat (map (\<lambda>b. map Settle b @ [WaveDone, Resume now]) (batchesFrom 0 q))"

section \<open>Derived notions and sample data\<close>

text \<open>The path of an item's entry, and the file table \<^verbatim>\<open>createZipFromFiles\<close> hands to JSZip.\<close>

definition filePath :: "FileData \<Rightarrow> string" where
  "filePath f = ''converted_pdfs'' @ ''/'' @ pdfFileName f"

definition archiveTable :: "FileData list \<Rightarrow> (string \<times> Blob option) list" where
  "archiveTable fl = foldl addConverted (zip_folder ''converted_pdfs'' []) fl"

text \<open>A decodable JPEG, an undecodable one, and one that decodes but that jsPDF refuses.\<close>

definition sampleFile :: File where
  "sampleFile = \<lparr>name = ''photo.jpg'', arrayBuffer = [0xFF, 0xD8, 0xFF, 0xE0, 0x10, 0xFF, 0xD9]\<rparr>"

definition corruptFile :: File where
  "corruptFile = \<lparr>name = ''broken.jpg'', arrayBuffer = [0x00, 0x01, 0x02]\<rparr>"

definition pngFile :: File where
  "pngFile = \<lparr>name = ''drawing.jpg'', arrayBuffer = [0x89, 0x50, 0x4E, 0x47]\<rparr>"

definition sampleItem :: FileData where
  "sampleItem = newFileData (''id-1'', ''blob:1'', sampleFile)"

definition corruptItem :: FileData where
  "corruptItem = newFileData (''id-2'', ''blob:2'', corruptFile)"

definition pngItem :: FileData where
  "pngItem = newFileData (''id-3'', ''blob:3'', pngFile)"

definition sampleHost :: Host where
  "sampleHost =
     \<lparr>imageLoad = (\<lambda>url. if url = ''blob:1'' then Some (640, 480)
                          else if url = ''blob:3'' then Some (32, 48) else None),
      addImageAccepts = (\<lambda>b. take 2 b = [0xFF, 0xD8]),
      zipGenerates = (\<lambda>t. True)\<rparr>"

definition failingZipHost :: Host where
  "failingZipHost = sampleHost\<lparr>zipGenerates := (\<lambda>t. False)\<rparr>"

definition doneItem :: "string \<Rightarrow> string \<Rightarrow> FileData" where
  "doneItem i n =
     (newFileData (i, ''blob:'' @ i, \<lparr>name = n, arrayBuffer = [0xFF, 0xD8]\<rparr>))
       \<lparr>status := COMPLETED, pdfBlob := Some (PdfBlob (new_jsPDF ''p'' ''px'' (1, 1) [''px_scaling'']))\<rparr>"

definition sampleStore :: "FileData list" where
  "sampleStore = [doneItem ''a'' ''scan.jpg'', sampleItem, doneItem ''b'' ''cover.jpeg'']"

subsection \<open>Notions for reasoning about a run\<close>

text \<open>
  The closed forms of what the run writes into the store: a dispatched batch marks
  the items of its identifiers, a settled conversion overwrites status and artifact, or
  status and message.
\<close>

definition markProcessing :: "FileData list \<Rightarrow> FileData list \<Rightarrow> FileData list" where
  "markProcessing batch fs = map (\<lambda>g. if uid g \<in> uid ` set batch then g\<lparr>status := PROCESSING\<rparr> else g) fs"

definition settleUpdate :: "Host \<Rightarrow> FileData \<Rightarrow> FileData \<Rightarrow> FileData" where
  "settleUpdate host f g =
     (case convertImageToPDF host f of
        Inr blob \<Rightarrow> g\<lparr>status := COMPLETED, pdfBlob := Some blob\<rparr>
      | Inl err \<Rightarrow> g\<lparr>status := ERROR, error := Some ''Failed to convert''\<rparr>)"

text \<open>
  A conversion succeeds exactly when the image decodes and jsPDF takes the bytes; such
  an item is called a valid JPEG for the host.
\<close>

definition converts :: "Host \<Rightarrow> FileData \<Rightarrow> bool" where
  "converts host f = (case convertImageToPDF host f of Inr blob \<Rightarrow> True | Inl err \<Rightarrow> False)"

definition validJpeg :: "Host \<Rightarrow> FileData \<Rightarrow> bool" where
  "validJpeg host f = (imageLoad host (previewUrl f) \<noteq> None \<and> addImageAccepts host (arrayBuffer (file_obj f)))"

text \<open>
  The items of the queue that have not settled yet: the pending members of the
  current batch and the batches the loop has not reached.
\<close>

definition remaining :: "Run \<Rightarrow> FileData list" where
  "remaining r =
     (case phase r of
        Converting \<Rightarrow> inflight r @ drop (index r + BATCH_SIZE) (queue r)
      | Delaying \<Rightarrow> drop (index r + BATCH_SIZE) (queue r)
      | Finished \<Rightarrow> [])"

text \<open>
  The invariants of a run. An item is well formed when it holds an artifact exactly if
  it is COMPLETED and holds a message if it is in ERROR. The pending items have distinct
  identifiers and come from the queue; the queue has distinct identifiers and comes
  from the closure's store; no stored item with the identifier of a pending item holds
  an artifact; an item whose identifier is not in the queue is an item of the closure's
  store or a fresh one added later; and a stored item with the identifier of a settled
  queue member shows that member's outcome.
\<close>

definition itemOk :: "FileData \<Rightarrow> bool" where
  "itemOk g = ((pdfBlob g \<noteq> None \<longleftrightarrow> status g = COMPLETED) \<and> (status g = ERROR \<longrightarrow> error g \<noteq> None))"

definition pendingOk :: "Run \<Rightarrow> bool" where
  "pendingOk r = (distinct (map uid (remaining r)) \<and> set (remaining r) \<subseteq> set (queue r))"

definition storeOk :: "Run \<Rightarrow> bool" where
  "storeOk r = (\<forall>g \<in> set (files (app r)).
                  itemOk g \<and> (uid g \<in> uid ` set (remaining r) \<longrightarrow> pdfBlob g = None))"

definition closureOk :: "Run \<Rightarrow> bool" where
  "closureOk r = (distinct (map uid (queue r)) \<and> set (queue r) \<subseteq> set (snapshot r))"

definition frameOk :: "Run \<Rightarrow> bool" where
  "frameOk r = (\<forall>g \<in> set (files (app r)). uid g \<notin> uid ` set (queue r) \<longrightarrow>
       (g \<in> set (snapshot r)
        \<or> (uid g \<notin> uid ` set (snapshot r) \<and> status g = IDLE \<and> pdfBlob g = None \<and> error g = None)))"

definition settledAs :: "Host \<Rightarrow> FileData \<Rightarrow> FileData \<Rightarrow> bool" where
  "settledAs host f g =
     (case convertImageToPDF host f of
        Inr blob \<Rightarrow> status g = COMPLETED \<and> pdfBlob g = Some blob
      | Inl err \<Rightarrow> status g = ERROR \<and> error g = Some ''Failed to convert'')"

definition outcomesOk :: "Host \<Rightarrow> Run \<Rightarrow> bool" where
  "outcomesOk host r = (\<forall>g \<in> set (files (app r)). \<forall>f \<in> set (queue r).
       uid g = uid f \<and> f \<notin> set (remaining r) \<longrightarrow> settledAs host f g)"

text \<open>
  The state a run ends in when every batch settles in queue order, and the states the
  application can be in between runs: files are added under unused identifiers, removed,
  cleared, and runs are carried out to their end under any host and any interleaving.
\<close>

definition runInOrder :: "Host \<Rightarrow> nat \<Rightarrow> nat \<Rightarrow> nat \<Rightarrow> AppState \<Rightarrow> AppState" where
  "runInOrder host now now' t s =
     (case exec host (processQueue_start now now' s) (inOrder t (filter eligible (files s))) of
        Some r \<Rightarrow> app r
      | None \<Rightarrow> s)"

inductive reachable :: "AppState \<Rightarrow> bool" where
  initial: "reachable initialState"
| added: "reachable s \<Longrightarrow> distinct (map fst newFiles) \<Longrightarrow> \<forall>n \<in> set newFiles. fst n \<notin> uid ` set (files s)
           \<Longrightarrow> reachable (handleFilesAdded newFiles s)"
| removed: "reachable s \<Longrightarrow> reachable (handleRemoveFile i s)"
| cleared: "reachable s \<Longrightarrow> reachable (handleClearAll s)"
| ran: "reachable s \<Longrightarrow> exec host (processQueue_start now now' s) evs = Some r \<Longrightarrow> phase r = Finished
           \<Longrightarrow> reachable (app r)"

text \<open>
  The members of the queue that no batch has taken yet: what lies beyond the batch at
  \<open>index\<close>. The stage invariant says what the store holds under the identifier of a
  queue member: while the member waits, the item as it was at the click, IDLE turned
  into QUEUED by the bulk update; while its conversion is pending, that item with status
  PROCESSING.
\<close>

definition waiting :: "Run \<Rightarrow> FileData list" where
  "waiting r = (if phase r = Finished then [] else drop (index r + BATCH_SIZE) (queue r))"

definition stageOk :: "Run \<Rightarrow> bool" where
  "stageOk r = (\<forall>g \<in> set (files (app r)). \<forall>f \<in> set (queue r). uid g = uid f \<longrightarrow>
       (f \<in> set (waiting r) \<longrightarrow> g = (if status f = IDLE then f\<lparr>status := QUEUED\<rparr> else f))
     \<and> (f \<in> set (inflight r) \<longrightarrow> g = f\<lparr>status := PROCESSING\<rparr>))"

subsection \<open>Sample stores\<close>

text \<open>
  A host that takes everything; twelve files, one undecodable file, and two files
  that fail in different ways, each added to the empty application; a valid and an
  undecodable file, before and after a first run; and a second run during which a
  file is added.
\<close>

definition openHost :: Host where
  "openHost = \<lparr>imageLoad = (\<lambda>url. Some (800, 600)), addImageAccepts = (\<lambda>b. True), zipGenerates = (\<lambda>t. True)\<rparr>"

definition twelveItems :: AppState where
  "twelveItems =
     handleFilesAdded (map (\<lambda>c. ([c], ''blob:'' @ [c], sampleFile)) ''abcdefghijkl'') initialState"

definition oneCorrupt :: AppState where
  "oneCorrupt = handleFilesAdded [(''id-2'', ''blob:2'', corruptFile)] initialState"

definition twoFailing :: AppState where
  "twoFailing = handleFilesAdded [(''id-2'', ''blob:2'', corruptFile), (''id-3'', ''blob:3'', pngFile)] initialState"

definition twoItems :: AppState where
  "twoItems = handleFilesAdded [(''id-1'', ''blob:1'', sampleFile), (''id-2'', ''blob:2'', corruptFile)] initialState"

definition afterFirstRun :: AppState where
  "afterFirstRun = runInOrder sampleHost 0 1 2 twoItems"

definition lateArrival :: "Event list" where
  "lateArrival =
     FilesAdded [(''id-9'', ''blob:9'', sampleFile)] # inOrder 12 (filter eligible (files afterFirstRun))"

text \<open>
  Seven undecodable files after a first run, joined by a valid file, and the settling of
  the first batch of the run started there; one converted file, joined by twelve valid
  files.
\<close>

definition sevenGone :: AppState where
  "sevenGone = handleFilesAdded (map (\<lambda>c. ([c], ''gone:'' @ [c], corruptFile)) ''abcdefg'') initialState"

definition afterFailedRun :: AppState where
  "afterFailedRun = runInOrder sampleHost 0 1 2 sevenGone"

definition mixedStore :: AppState where
  "mixedStore = handleFilesAdded [(''h'', ''blob:1'', sampleFile)] afterFailedRun"

definition firstWaveSettles :: "Event list" where
  "firstWaveSettles = map Settle (inflight (processQueue_start 10 11 mixedStore)) @ [WaveDone]"

definition oneDone :: AppState where
  "oneDone = runInOrder openHost 0 1 2 (handleFilesAdded [(''z'', ''blob:z'', sampleFile)] initialState)"

definition besideDone :: AppState where
  "besideDone = handleFilesAdded (map (\<lambda>c. ([c], ''blob:'' @ [c], sampleFile)) ''abcdefghijkl'') oneDone"

section \<open>The converter\<close>

text \<open>
  C1. When the host decodes the item's image and jsPDF takes its bytes as a JPEG,
  \<^verbatim>\<open>convertImageToPDF\<close> answers a document blob whose only image stream is the
  file's byte sequence, unchanged, handed over as format JPEG with compression FAST.
\<close>

theorem convert_embeds_input_bytes:
  assumes "imageLoad host (previewUrl fd) = Some (w, h)"
      and "addImageAccepts host (arrayBuffer (file_obj fd))"
  shows "\<exists>pdf img. convertImageToPDF host fd = Inr (PdfBlob pdf)
           \<and> embeddedStreams (PdfBlob pdf) = [arrayBuffer (file_obj fd)]
           \<and> concat (map pageImages (pages pdf)) = [img]
           \<and> imageData img = arrayBuffer (file_obj fd)
           \<and> imageFormat img = ''JPEG'' \<and> compression img = ''FAST''"
  using assms
  by (simp add: convertImageToPDF_def getImageDimensions_def new_jsPDF_def addImage_def output_blob_def)

theorem convert_embeds_input_bytes_witness:
  "imageLoad sampleHost (previewUrl sampleItem) = Some (640, 480)
   \<and> addImageAccepts sampleHost (arrayBuffer (file_obj sampleItem))
   \<and> (\<exists>pdf img. convertImageToPDF sampleHost sampleItem = Inr (PdfBlob pdf)
         \<and> embeddedStreams (PdfBlob pdf) = [[0xFF, 0xD8, 0xFF, 0xE0, 0x10, 0xFF, 0xD9]]
         \<and> concat (map pageImages (pages pdf)) = [img]
         \<and> imageData img = [0xFF, 0xD8, 0xFF, 0xE0, 0x10, 0xFF, 0xD9]
         \<and> imageFormat img = ''JPEG'' \<and> compression img = ''FAST'')"
proof -
  have a: "imageLoad sampleHost (previewUrl sampleItem) = Some (640, 480)"
    by (simp add: sampleHost_def sampleItem_def newFileData_def)
  have b: "addImageAccepts sampleHost (arrayBuffer (file_obj sampleItem))"
    by (simp add: sampleHost_def sampleItem_def newFileData_def sampleFile_def)
  have c: "arrayBuffer (file_obj sampleItem) = [0xFF, 0xD8, 0xFF, 0xE0, 0x10, 0xFF, 0xD9]"
    by (simp add: sampleItem_def newFileData_def sampleFile_def)
  from convert_embeds_input_bytes [OF a b] a b show ?thesis
    unfolding c by simp
qed

text \<open>
  C7, as the code has it. When the probe yields \<open>(w, h)\<close> and jsPDF takes the bytes, the
  document has one page of format \<open>(w, h)\<close> in unit px, orientation \<open>l\<close> when
  \<open>w > h\<close> and \<open>p\<close> otherwise, and its one image is drawn at \<open>(0, 0)\<close> with size
  \<open>(w, h)\<close>. When the probe yields \<open>(w, h)\<close> and jsPDF refuses the bytes, the
  converter fails with the encoding error and there is no document.
\<close>

theorem convert_page_geometry:
  assumes "imageLoad host (previewUrl fd) = Some (w, h)"
  shows "(addImageAccepts host (arrayBuffer (file_obj fd)) \<longrightarrow>
           (\<exists>pdf img. convertImageToPDF host fd = Inr (PdfBlob pdf)
              \<and> pages pdf = [\<lparr>pageFormat = (w, h), pageImages = [img]\<rparr>]
              \<and> unit pdf = ''px''
              \<and> orientation pdf = (if w > h then ''l'' else ''p'')
              \<and> posX img = 0 \<and> posY img = 0 \<and> drawWidth img = w \<and> drawHeight img = h))
       \<and> (\<not> addImageAccepts host (arrayBuffer (file_obj fd)) \<longrightarrow>
           convertImageToPDF host fd = Inl EncodingError)"
  using assms
  by (simp add: convertImageToPDF_def getImageDimensions_def new_jsPDF_def addImage_def output_blob_def)

theorem convert_page_geometry_counterexample:
  "imageLoad sampleHost (previewUrl pngItem) = Some (32, 48)
   \<and> convertImageToPDF sampleHost pngItem = Inl EncodingError"
proof -
  have a: "imageLoad sampleHost (previewUrl pngItem) = Some (32, 48)" by code_simp
  have b: "convertImageToPDF sampleHost pngItem = Inl EncodingError" by code_simp
  show ?thesis by (intro conjI a b)
qed

theorem convert_page_geometry_witness:
  "imageLoad sampleHost (previewUrl sampleItem) = Some (640, 480)
   \<and> addImageAccepts sampleHost (arrayBuffer (file_obj sampleItem))
   \<and> (\<exists>pdf img. convertImageToPDF sampleHost sampleItem = Inr (PdfBlob pdf)
         \<and> pages pdf = [\<lparr>pageFormat = (640, 480), pageImages = [img]\<rparr>]
         \<and> unit pdf = ''px'' \<and> orientation pdf = ''l''
         \<and> posX img = 0 \<and> posY img = 0 \<and> drawWidth img = 640 \<and> drawHeight img = 480)
   \<and> imageLoad sampleHost (previewUrl pngItem) = Some (32, 48)
   \<and> \<not> addImageAccepts sampleHost (arrayBuffer (file_obj pngItem))
   \<and> convertImageToPDF sampleHost pngItem = Inl EncodingError"
proof -
  have a: "imageLoad sampleHost (previewUrl sampleItem) = Some (640, 480)"
    by (simp add: sampleHost_def sampleItem_def newFileData_def)
  have b: "addImageAccepts sampleHost (arrayBuffer (file_obj sampleItem))"
    by (simp add: sampleHost_def sampleItem_def newFileData_def sampleFile_def)
  have c: "imageLoad sampleHost (previewUrl pngItem) = Some (32, 48)"
    by (simp add: sampleHost_def pngItem_def newFileData_def)
  have d: "\<not> addImageAccepts sampleHost (arrayBuffer (file_obj pngItem))"
    by (simp add: sampleHost_def pngItem_def newFileData_def pngFile_def)
  from convert_page_geometry [OF a] b
  have e: "\<exists>pdf img. convertImageToPDF sampleHost sampleItem = Inr (PdfBlob pdf)
         \<and> pages pdf = [\<lparr>pageFormat = (640, 480), pageImages = [img]\<rparr>]
         \<and> unit pdf = ''px'' \<and> orientation pdf = ''l''
         \<and> posX img = 0 \<and> posY img = 0 \<and> drawWidth img = 640 \<and> drawHeight img = 480"
    by simp
  from convert_page_geometry [OF c] d
  have f: "convertImageToPDF sampleHost pngItem = Inl EncodingError" by simp
  show ?thesis by (intro conjI a b e c d f)
qed

section \<open>The packager\<close>

lemma replaceExtension_strips:
  "ext \<noteq> [] \<Longrightarrow> CHR ''.'' \<notin> set ext \<Longrightarrow> CHR ''/'' \<notin> set ext
     \<Longrightarrow> replaceExtension (base @ CHR ''.'' # ext) = base"
proof (induction base)
  case Nil
  then show ?case by (auto simp: list_all_iff)
next
  case (Cons c base)
  then show ?case by (auto simp: list_all_iff)
qed

lemma replaceExtension_no_dot: "CHR ''.'' \<notin> set s \<Longrightarrow> replaceExtension s = s"
  by (induction s) auto

lemma map_of_addConverted:
  "map_of (addConverted table f) =
     (case pdfBlob f of None \<Rightarrow> map_of table | Some b \<Rightarrow> (map_of table)(filePath f \<mapsto> Some b))"
  by (simp add: addConverted_def zip_file_def filePath_def update_conv' split: option.splits)

lemma map_of_foldl_addConverted:
  "map_of (foldl addConverted table fl) =
     map_of table ++ map_of (rev (map (\<lambda>f. (filePath f, pdfBlob f)) (filter (\<lambda>f. pdfBlob f \<noteq> None) fl)))"
proof (induction fl arbitrary: table)
  case Nil
  then show ?case by simp
next
  case (Cons f fl)
  let ?kv = "\<lambda>f. (filePath f, pdfBlob f)"
  let ?rest = "map_of (rev (map ?kv (filter (\<lambda>f. pdfBlob f \<noteq> None) fl)))"
  have ih: "map_of (foldl addConverted (addConverted table f) fl) = map_of (addConverted table f) ++ ?rest"
    by (rule Cons.IH)
  show ?case
  proof (cases "pdfBlob f")
    case None
    then show ?thesis using ih by (simp add: map_of_addConverted)
  next
    case (Some b)
    have "map_of (addConverted table f) ++ ?rest = (map_of table ++ [filePath f \<mapsto> Some b]) ++ ?rest"
      using Some by (simp add: map_of_addConverted)
    also have "\<dots> = map_of table ++ ([filePath f \<mapsto> Some b] ++ ?rest)"
      by (simp only: map_add_assoc)
    also have "[filePath f \<mapsto> Some b] ++ ?rest = map_of (rev (map ?kv (filter (\<lambda>f. pdfBlob f \<noteq> None) (f # fl))))"
      using Some by (simp add: map_of_append)
    finally show ?thesis using ih by simp
  qed
qed

lemma distinct_foldl_addConverted:
  "distinct (map fst table) \<Longrightarrow> distinct (map fst (foldl addConverted table fl))"
  by (induction fl arbitrary: table)
     (auto simp: addConverted_def zip_file_def distinct_update split: option.splits)

lemma keys_addConverted:
  "set (map fst (addConverted table f)) =
     set (map fst table) \<union> (if pdfBlob f \<noteq> None then {filePath f} else {})"
  by (cases "pdfBlob f") (auto simp: addConverted_def zip_file_def filePath_def update_keys)

lemma keys_foldl_addConverted:
  "set (map fst (foldl addConverted table fl)) =
     set (map fst table) \<union> filePath ` {f \<in> set fl. pdfBlob f \<noteq> None}"
proof (induction fl arbitrary: table)
  case Nil
  then show ?case by simp
next
  case (Cons f fl)
  show ?case
    unfolding foldl_Cons Cons.IH [of "addConverted table f"] keys_addConverted
    by auto
qed


lemma pdfFileName_nonempty: "pdfFileName f \<noteq> []"
  by (simp add: pdfFileName_def)

lemma filePath_not_folder: "filePath f \<noteq> ''converted_pdfs/''"
  by (simp add: filePath_def pdfFileName_nonempty)

lemma filePath_inj: "filePath f = filePath g \<longleftrightarrow> pdfFileName f = pdfFileName g"
  by (simp add: filePath_def)

lemma completedFiles_blob: "f \<in> set (completedFiles fl) \<Longrightarrow> pdfBlob f \<noteq> None"
  by (simp add: completedFiles_def)

lemma filter_blob_completedFiles:
  "filter (\<lambda>f. pdfBlob f \<noteq> None) (completedFiles fl) = completedFiles fl"
  by (simp add: completedFiles_def)

lemma zip_folder_empty: "zip_folder ''converted_pdfs'' [] = [(''converted_pdfs/'', None)]"
  by (simp add: zip_folder_def)

lemma archiveTable_distinct: "distinct (map fst (archiveTable fl))"
  unfolding archiveTable_def by (rule distinct_foldl_addConverted) (simp add: zip_folder_empty)

lemma archiveTable_folder:
  "map_of (archiveTable fl) ''converted_pdfs/'' = Some None"
proof -
  let ?kvs = "rev (map (\<lambda>f. (filePath f, pdfBlob f)) (filter (\<lambda>f. pdfBlob f \<noteq> None) fl))"
  have "''converted_pdfs/'' \<notin> fst ` set ?kvs"
  proof
    assume "''converted_pdfs/'' \<in> fst ` set ?kvs"
    then obtain f where "''converted_pdfs/'' = filePath f" by auto
    then show False using filePath_not_folder [of f] by simp
  qed
  then have "map_of ?kvs ''converted_pdfs/'' = None"
    by (simp add: map_of_eq_None_iff)
  then show ?thesis
    by (simp add: archiveTable_def map_of_foldl_addConverted zip_folder_empty map_add_def)
qed

lemma archiveTable_files:
  assumes "p \<noteq> ''converted_pdfs/''"
  shows "map_of (archiveTable fl) p =
           map_of (rev (map (\<lambda>f. (filePath f, pdfBlob f)) (filter (\<lambda>f. pdfBlob f \<noteq> None) fl))) p"
  using assms
  by (simp add: archiveTable_def map_of_foldl_addConverted zip_folder_empty map_add_def split: option.splits)

lemma archiveTable_length:
  assumes "distinct (map pdfFileName (filter (\<lambda>f. pdfBlob f \<noteq> None) fl))"
  shows "length (archiveTable fl) = Suc (length (filter (\<lambda>f. pdfBlob f \<noteq> None) fl))"
proof -
  let ?fs = "filter (\<lambda>f. pdfBlob f \<noteq> None) fl"
  have inj: "inj_on filePath (set ?fs)"
  proof (rule inj_onI)
    fix f g assume "f \<in> set ?fs" "g \<in> set ?fs" "filePath f = filePath g"
    then have "pdfFileName f = pdfFileName g" by (simp add: filePath_inj)
    with assms \<open>f \<in> set ?fs\<close> \<open>g \<in> set ?fs\<close> show "f = g"
      by (meson distinct_map inj_onD)
  qed
  have d: "distinct ?fs" using assms by (simp add: distinct_map)
  have keys: "set (map fst (archiveTable fl)) = insert ''converted_pdfs/'' (filePath ` set ?fs)"
    unfolding archiveTable_def keys_foldl_addConverted zip_folder_empty by auto
  have "length (archiveTable fl) = card (set (map fst (archiveTable fl)))"
    using distinct_card [OF archiveTable_distinct [of fl]] by simp
  also have "\<dots> = Suc (card (filePath ` set ?fs))"
  proof -
    have "''converted_pdfs/'' \<notin> filePath ` set ?fs"
    proof
      assume "''converted_pdfs/'' \<in> filePath ` set ?fs"
      then obtain f where "''converted_pdfs/'' = filePath f" by blast
      then show False using filePath_not_folder [of f] by simp
    qed
    then show ?thesis unfolding keys by (subst card_insert_disjoint) simp_all
  qed
  also have "card (filePath ` set ?fs) = length ?fs"
    by (simp only: card_image [OF inj] distinct_card [OF d])
  finally show ?thesis .
qed

text \<open>
  C8. When at least one item is COMPLETED with an artifact and the archive is generated,
  \<^verbatim>\<open>handleDownloadZip\<close> saves one archive under the name converted_pdfs.zip. Its
  table has no path twice, holds the folder entry converted_pdfs/, and at every other
  path holds what the last completed item of that path wrote (and nothing where no
  completed item has that path); items that are not COMPLETED or have no artifact add
  nothing. With no two completed items of one output name, the table has one entry per
  completed item besides the folder. An output name is the display name with its
  extension replaced by .pdf.
\<close>

theorem packager_archive_contents:
  assumes "completedFiles fileList \<noteq> []"
      and "createZipFromFiles host (completedFiles fileList) \<noteq> Inl ArchiveError"
  shows "\<exists>table. handleDownloadZip host fileList = [SaveAs (ZipBlob table) ''converted_pdfs.zip'']
           \<and> distinct (map fst table)
           \<and> map_of table ''converted_pdfs/'' = Some None
           \<and> (\<forall>p. p \<noteq> ''converted_pdfs/'' \<longrightarrow>
                 map_of table p =
                   map_of (rev (map (\<lambda>f. (''converted_pdfs/'' @ pdfFileName f, pdfBlob f))
                                    (completedFiles fileList))) p)
           \<and> (distinct (map pdfFileName (completedFiles fileList)) \<longrightarrow>
                 length table = Suc (length (completedFiles fileList)))
           \<and> (\<forall>f base ext. name (file_obj f) = base @ CHR ''.'' # ext \<and> ext \<noteq> []
                   \<and> CHR ''.'' \<notin> set ext \<and> CHR ''/'' \<notin> set ext \<longrightarrow>
                 pdfFileName f = base @ ''.pdf'')"
proof -
  let ?done = "completedFiles fileList"
  have gen: "createZipFromFiles host ?done = Inr (ZipBlob (archiveTable ?done))"
    using assms(2) by (simp add: createZipFromFiles_def generateAsync_def archiveTable_def split: if_splits)
  have eff: "handleDownloadZip host fileList = [SaveAs (ZipBlob (archiveTable ?done)) ''converted_pdfs.zip'']"
    using assms(1) gen by (simp add: handleDownloadZip_def)
  have path: "(\<lambda>f. (''converted_pdfs/'' @ pdfFileName f, pdfBlob f)) = (\<lambda>f. (filePath f, pdfBlob f))"
    by (simp add: filePath_def)
  have naming: "\<forall>f base ext. name (file_obj f) = base @ CHR ''.'' # ext \<and> ext \<noteq> []
                   \<and> CHR ''.'' \<notin> set ext \<and> CHR ''/'' \<notin> set ext \<longrightarrow>
                 pdfFileName f = base @ ''.pdf''"
    by (simp add: pdfFileName_def replaceExtension_strips)
  show ?thesis
    using eff archiveTable_distinct [of ?done] archiveTable_folder [of ?done]
      archiveTable_files [of _ ?done] archiveTable_length [of ?done] naming
    by (simp only: path filter_blob_completedFiles) blast
qed

theorem packager_archive_contents_witness:
  "completedFiles sampleStore \<noteq> []
   \<and> createZipFromFiles sampleHost (completedFiles sampleStore) \<noteq> Inl ArchiveError
   \<and> distinct (map pdfFileName (completedFiles sampleStore))
   \<and> pdfFileName (doneItem ''b'' ''cover.jpeg'') = ''cover.pdf''
   \<and> (\<exists>table. handleDownloadZip sampleHost sampleStore = [SaveAs (ZipBlob table) ''converted_pdfs.zip'']
         \<and> map_of table ''converted_pdfs/'' = Some None
         \<and> map_of table ''converted_pdfs/scan.pdf'' = Some (pdfBlob (doneItem ''a'' ''scan.jpg''))
         \<and> length table = 3)"
proof -
  have dn: "completedFiles sampleStore = [doneItem ''a'' ''scan.jpg'', doneItem ''b'' ''cover.jpeg'']"
    by (simp add: completedFiles_def sampleStore_def doneItem_def sampleItem_def newFileData_def)
  have n1: "pdfFileName (doneItem ''a'' ''scan.jpg'') = ''scan.pdf''"
    by (simp add: pdfFileName_def doneItem_def newFileData_def)
  have n2: "pdfFileName (doneItem ''b'' ''cover.jpeg'') = ''cover.pdf''"
    by (simp add: pdfFileName_def doneItem_def newFileData_def)
  have a: "completedFiles sampleStore \<noteq> []" by (simp add: dn)
  have b: "createZipFromFiles sampleHost (completedFiles sampleStore) \<noteq> Inl ArchiveError"
    by (simp add: createZipFromFiles_def generateAsync_def sampleHost_def)
  have c: "distinct (map pdfFileName (completedFiles sampleStore))"
    by (simp add: dn n1 n2)
  from packager_archive_contents [OF a b] obtain table where
    t: "handleDownloadZip sampleHost sampleStore = [SaveAs (ZipBlob table) ''converted_pdfs.zip'']"
       "map_of table ''converted_pdfs/'' = Some None"
       "\<forall>p. p \<noteq> ''converted_pdfs/'' \<longrightarrow>
          map_of table p = map_of (rev (map (\<lambda>f. (''converted_pdfs/'' @ pdfFileName f, pdfBlob f))
                                    (completedFiles sampleStore))) p"
       "distinct (map pdfFileName (completedFiles sampleStore)) \<longrightarrow>
          length table = Suc (length (completedFiles sampleStore))"
    by blast
  have "map_of table ''converted_pdfs/scan.pdf'' = Some (pdfBlob (doneItem ''a'' ''scan.jpg''))"
    using t(3) by (simp add: dn n1 n2)
  moreover have "length table = 3" using t(4) c by (simp add: dn)
  ultimately show ?thesis using a b c n2 t(1,2) by blast
qed

text \<open>
  C9, as the code has it. With no item COMPLETED with an artifact,
  \<^verbatim>\<open>handleDownloadZip\<close> returns at its guard: nothing is saved and nothing is
  reported. \<^verbatim>\<open>createZipFromFiles\<close> on items without artifacts asks JSZip for the
  archive that holds the folder only. When generation fails for the completed items,
  the handler logs and alerts once and saves nothing.
\<close>

theorem packager_empty_and_failure:
  "(completedFiles fileList = [] \<longrightarrow> handleDownloadZip host fileList = [])
   \<and> ((\<forall>f \<in> set fl. pdfBlob f = None) \<longrightarrow>
        createZipFromFiles host fl =
          (if zipGenerates host [(''converted_pdfs/'', None)]
           then Inr (ZipBlob [(''converted_pdfs/'', None)]) else Inl ArchiveError))
   \<and> (completedFiles fileList \<noteq> [] \<and> createZipFromFiles host (completedFiles fileList) = Inl ArchiveError \<longrightarrow>
        handleDownloadZip host fileList =
          [ConsoleError ''Error creating zip'', Alert ''Failed to create ZIP file.''])"
proof -
  have "foldl addConverted table fl = table" if "\<forall>f \<in> set fl. pdfBlob f = None" for table
    using that by (induction fl arbitrary: table) (simp_all add: addConverted_def)
  then show ?thesis
    by (simp add: handleDownloadZip_def createZipFromFiles_def generateAsync_def zip_folder_empty)
qed

theorem packager_zero_done_counterexample:
  "completedFiles [sampleItem] = []
   \<and> handleDownloadZip sampleHost [sampleItem] = []
   \<and> handleDownloadZip failingZipHost [sampleItem] = []"
  by (simp add: handleDownloadZip_def completedFiles_def sampleItem_def newFileData_def)

theorem packager_empty_and_failure_witness:
  "completedFiles [sampleItem] = []
   \<and> handleDownloadZip sampleHost [sampleItem] = []
   \<and> pdfBlob sampleItem = None
   \<and> createZipFromFiles sampleHost [sampleItem] = Inr (ZipBlob [(''converted_pdfs/'', None)])
   \<and> createZipFromFiles failingZipHost [sampleItem] = Inl ArchiveError
   \<and> completedFiles sampleStore \<noteq> []
   \<and> createZipFromFiles failingZipHost (completedFiles sampleStore) = Inl ArchiveError
   \<and> handleDownloadZip failingZipHost sampleStore =
        [ConsoleError ''Error creating zip'', Alert ''Failed to create ZIP file.'']"
proof -
  have a: "completedFiles [sampleItem] = []"
    by (simp add: completedFiles_def sampleItem_def newFileData_def)
  have b: "pdfBlob sampleItem = None"
    by (simp add: sampleItem_def newFileData_def)
  have c: "completedFiles sampleStore \<noteq> []"
    by (simp add: completedFiles_def sampleStore_def doneItem_def)
  have d: "createZipFromFiles failingZipHost (completedFiles sampleStore) = Inl ArchiveError"
    by (simp add: createZipFromFiles_def generateAsync_def failingZipHost_def)
  have z1: "zipGenerates sampleHost [(''converted_pdfs/'', None)]"
    by (simp add: sampleHost_def)
  have z2: "\<not> zipGenerates failingZipHost [(''converted_pdfs/'', None)]"
    by (simp add: failingZipHost_def)
  from packager_empty_and_failure [of "[sampleItem]" sampleHost "[sampleItem]"]
       packager_empty_and_failure [of "[sampleItem]" failingZipHost "[sampleItem]"]
       packager_empty_and_failure [of sampleStore failingZipHost "[]"]
       a b c d z1 z2
  show ?thesis by simp
qed

section \<open>The run\<close>

subsection \<open>Batches and the loop head\<close>

lemma array_slice_subset: "set (array_slice q i j) \<subseteq> set q"
  unfolding array_slice_def by (meson set_take_subset set_drop_subset subset_trans)

lemma array_slice_append_drop: "array_slice q i (i + BATCH_SIZE) @ drop (i + BATCH_SIZE) q = drop i q"
proof -
  have a: "drop (i + BATCH_SIZE) q = drop BATCH_SIZE (drop i q)"
    by (simp add: add.commute)
  have b: "i + BATCH_SIZE - i = BATCH_SIZE"
    by simp
  show ?thesis unfolding array_slice_def a b by (rule append_take_drop_id)
qed

lemma array_slice_length: "length (array_slice q i (i + BATCH_SIZE)) \<le> BATCH_SIZE"
  by (simp add: array_slice_def)

lemma array_slice_nonempty: "i < length q \<Longrightarrow> array_slice q i (i + BATCH_SIZE) \<noteq> []"
  by (simp add: array_slice_def BATCH_SIZE_def)

lemma foldl_processFile_start:
  "foldl (\<lambda>s f. processFile_start f s) s b = s\<lparr>files := markProcessing b (files s)\<rparr>"
proof (induction b arbitrary: s)
  case Nil
  then show ?case by (simp add: markProcessing_def)
next
  case (Cons f b)
  have "markProcessing b (updateFileStatus (uid f) (\<lambda>g. g\<lparr>status := PROCESSING\<rparr>) fs) = markProcessing (f # b) fs" for fs
    by (induction fs) (auto simp: markProcessing_def updateFileStatus_def)
  then have "(processFile_start f s)\<lparr>files := markProcessing b (files (processFile_start f s))\<rparr> =
               s\<lparr>files := markProcessing (f # b) (files s)\<rparr>"
    by (simp add: processFile_start_def)
  moreover have "foldl (\<lambda>s f. processFile_start f s) s (f # b) =
                   (processFile_start f s)\<lparr>files := markProcessing b (files (processFile_start f s))\<rparr>"
    unfolding foldl_Cons by (rule Cons.IH)
  ultimately show ?case by simp
qed

lemma loop_more:
  assumes "index r < length (queue r)"
  shows "processQueue_loop now r =
           r\<lparr>app := (app r)\<lparr>files := markProcessing (array_slice (queue r) (index r) (index r + BATCH_SIZE)) (files (app r))\<rparr>,
             inflight := array_slice (queue r) (index r) (index r + BATCH_SIZE), phase := Converting\<rparr>"
  using assms by (simp add: processQueue_loop_def foldl_processFile_start Let_def)

lemma loop_end:
  assumes "\<not> index r < length (queue r)"
  shows "processQueue_loop now r =
           r\<lparr>app := (app r)\<lparr>stats := (stats (app r))\<lparr>endTime := Some now\<rparr>, isProcessing := False\<rparr>,
             phase := Finished\<rparr>"
  using assms by (simp add: processQueue_loop_def)

lemma settle_files:
  "files (processFile_settle host f s) = updateFileStatus (uid f) (settleUpdate host f) (files s)"
  by (simp add: processFile_settle_def settleUpdate_def updateFileStatus_def split: sum.splits)

lemma settle_stats:
  "total (stats (processFile_settle host f s)) = total (stats s)"
  "processed (stats (processFile_settle host f s)) = Suc (processed (stats s))"
  "success (stats (processFile_settle host f s)) = success (stats s) + (if converts host f then 1 else 0)"
  "failed (stats (processFile_settle host f s)) = failed (stats s) + (if converts host f then 0 else 1)"
  by (simp_all add: processFile_settle_def converts_def split: sum.splits)

lemma loop_remaining: "remaining (processQueue_loop now r) = drop (index r) (queue r)"
proof (cases "index r < length (queue r)")
  case True
  then show ?thesis by (simp add: loop_more remaining_def array_slice_append_drop)
next
  case False
  then show ?thesis by (simp add: loop_end remaining_def)
qed

lemma loop_const:
  "queue (processQueue_loop now r) = queue r"
  "snapshot (processQueue_loop now r) = snapshot r"
  "index (processQueue_loop now r) = index r"
  "stats (app (processQueue_loop now r)) =
     (if index r < length (queue r) then stats (app r) else (stats (app r))\<lparr>endTime := Some now\<rparr>)"
  by (simp_all add: processQueue_loop_def Let_def foldl_processFile_start)

lemma step_const:
  assumes "step host r e = Some r'"
  shows "queue r' = queue r" and "snapshot r' = snapshot r"
proof -
  show "queue r' = queue r"
    using assms by (cases e) (auto simp: loop_const split: if_splits)
  show "snapshot r' = snapshot r"
    using assms by (cases e) (auto simp: loop_const split: if_splits)
qed

lemma step_remaining:
  assumes "step host r e = Some r'"
  shows "remaining r' = (case e of Settle f \<Rightarrow> remove1 f (remaining r) | _ \<Rightarrow> remaining r)"
proof (cases e)
  case (Settle f)
  with assms show ?thesis
    by (auto simp: remaining_def remove1_append split: if_splits)
next
  case WaveDone
  with assms show ?thesis by (auto simp: remaining_def split: if_splits)
next
  case (Resume now)
  with assms have ph: "phase r = Delaying"
    and r': "r' = processQueue_loop now (r\<lparr>index := index r + BATCH_SIZE\<rparr>)"
    by (auto split: if_splits)
  have "remaining r' = drop (index r + BATCH_SIZE) (queue r)"
    unfolding r' loop_remaining by simp
  moreover have "remaining r = drop (index r + BATCH_SIZE) (queue r)"
    using ph by (simp add: remaining_def)
  ultimately show ?thesis using Resume by simp
next
  case (FilesAdded n)
  with assms show ?thesis by (auto simp: remaining_def split: if_splits Phase.splits)
next
  case (RemoveFile i)
  with assms show ?thesis by (auto simp: remaining_def split: Phase.splits)
qed

lemma step_settle_member:
  assumes "step host r (Settle f) = Some r'"
  shows "f \<in> set (remaining r)"
  using assms by (auto simp: remaining_def split: if_splits)

subsection \<open>What a step does to the store and to the counters\<close>

lemma markProcessing_Nil: "markProcessing [] fs = fs"
  by (induction fs) (simp_all add: markProcessing_def)

lemma array_slice_beyond: "\<not> i < length q \<Longrightarrow> array_slice q i j = []"
  by (simp add: array_slice_def)

lemma loop_files:
  "files (app (processQueue_loop now r)) =
     markProcessing (array_slice (queue r) (index r) (index r + BATCH_SIZE)) (files (app r))"
proof (cases "index r < length (queue r)")
  case True
  then show ?thesis by (simp add: loop_more)
next
  case False
  then show ?thesis by (simp add: loop_end array_slice_beyond markProcessing_Nil)
qed

lemma step_files:
  assumes "step host r e = Some r'"
  shows "files (app r') =
     (case e of
        Settle f \<Rightarrow> updateFileStatus (uid f) (settleUpdate host f) (files (app r))
      | WaveDone \<Rightarrow> files (app r)
      | Resume now \<Rightarrow>
          markProcessing (array_slice (queue r) (index r + BATCH_SIZE) (index r + BATCH_SIZE + BATCH_SIZE)) (files (app r))
      | FilesAdded newFiles \<Rightarrow> files (app r) @ map newFileData newFiles
      | RemoveFile i \<Rightarrow> filter (\<lambda>f. uid f \<noteq> i) (files (app r)))"
  using assms
  by (cases e)
     (auto simp: settle_files loop_files handleFilesAdded_def handleRemoveFile_def split: if_splits)

lemma step_stats:
  assumes "step host r e = Some r'"
  shows "stats (app r') =
     (case e of
        Settle f \<Rightarrow> stats (processFile_settle host f (app r))
      | Resume now \<Rightarrow>
          (if index r + BATCH_SIZE < length (queue r) then stats (app r)
           else (stats (app r))\<lparr>endTime := Some now\<rparr>)
      | _ \<Rightarrow> stats (app r))"
  using assms
  by (cases e)
     (auto simp: loop_const handleFilesAdded_def handleRemoveFile_def split: if_splits)

lemma length_filter_remove1:
  "x \<in> set xs \<Longrightarrow> length (filter P (remove1 x xs)) + (if P x then 1 else 0) = length (filter P xs)"
  by (induction xs) auto

lemma length_remove1_Suc: "x \<in> set xs \<Longrightarrow> Suc (length (remove1 x xs)) = length xs"
  by (induction xs) auto

lemma step_potential:
  assumes "step host r e = Some r'"
  shows "total (stats (app r')) = total (stats (app r))"
    and "processed (stats (app r')) + length (remaining r') =
         processed (stats (app r)) + length (remaining r)"
    and "success (stats (app r')) + length (filter (converts host) (remaining r')) =
         success (stats (app r)) + length (filter (converts host) (remaining r))"
    and "failed (stats (app r')) + length (filter (\<lambda>f. \<not> converts host f) (remaining r')) =
         failed (stats (app r)) + length (filter (\<lambda>f. \<not> converts host f) (remaining r))"
proof -
  note st = step_stats [OF assms] and rm = step_remaining [OF assms]
  show "total (stats (app r')) = total (stats (app r))"
    using st by (cases e) (simp_all add: settle_stats)
  show "processed (stats (app r')) + length (remaining r') =
         processed (stats (app r)) + length (remaining r)"
  proof (cases e)
    case (Settle f)
    then have "f \<in> set (remaining r)" using assms step_settle_member by blast
    then show ?thesis using st rm Settle length_remove1_Suc [of f "remaining r"]
      by (simp add: settle_stats)
  qed (use st rm in simp_all)
  show "success (stats (app r')) + length (filter (converts host) (remaining r')) =
         success (stats (app r)) + length (filter (converts host) (remaining r))"
  proof (cases e)
    case (Settle f)
    then have "f \<in> set (remaining r)" using assms step_settle_member by blast
    then show ?thesis
      using st rm Settle length_filter_remove1 [of f "remaining r" "converts host"]
      by (simp add: settle_stats)
  qed (use st rm in simp_all)
  show "failed (stats (app r')) + length (filter (\<lambda>f. \<not> converts host f) (remaining r')) =
         failed (stats (app r)) + length (filter (\<lambda>f. \<not> converts host f) (remaining r))"
  proof (cases e)
    case (Settle f)
    then have "f \<in> set (remaining r)" using assms step_settle_member by blast
    then show ?thesis
      using st rm Settle length_filter_remove1 [of f "remaining r" "\<lambda>f. \<not> converts host f"]
      by (auto simp: settle_stats split: if_splits)
  qed (use st rm in simp_all)
qed

lemma exec_invariant:
  assumes "exec host r evs = Some r'"
      and "P r"
      and "\<And>a e b. P a \<Longrightarrow> step host a e = Some b \<Longrightarrow> P b"
  shows "P r'"
  using assms(1,2)
proof (induction evs arbitrary: r)
  case Nil
  then show ?case by simp
next
  case (Cons e evs)
  then obtain b where b: "step host r e = Some b" and rest: "exec host b evs = Some r'"
    by (auto split: option.splits)
  from assms(3) [OF Cons.prems(2) b] have "P b" .
  with Cons.IH rest show ?case by blast
qed

lemma exec_potential:
  assumes "exec host r evs = Some r'"
  shows "total (stats (app r')) = total (stats (app r))
     \<and> processed (stats (app r')) + length (remaining r') =
         processed (stats (app r)) + length (remaining r)
     \<and> success (stats (app r')) + length (filter (converts host) (remaining r')) =
         success (stats (app r)) + length (filter (converts host) (remaining r))
     \<and> failed (stats (app r')) + length (filter (\<lambda>f. \<not> converts host f) (remaining r')) =
         failed (stats (app r)) + length (filter (\<lambda>f. \<not> converts host f) (remaining r))"
  by (rule exec_invariant [OF assms, where P = "\<lambda>a. total (stats (app a)) = total (stats (app r))
     \<and> processed (stats (app a)) + length (remaining a) =
         processed (stats (app r)) + length (remaining r)
     \<and> success (stats (app a)) + length (filter (converts host) (remaining a)) =
         success (stats (app r)) + length (filter (converts host) (remaining r))
     \<and> failed (stats (app a)) + length (filter (\<lambda>f. \<not> converts host f) (remaining a)) =
         failed (stats (app r)) + length (filter (\<lambda>f. \<not> converts host f) (remaining r))"])
     (simp_all add: step_potential)

lemma exec_const:
  assumes "exec host r evs = Some r'"
  shows "queue r' = queue r \<and> snapshot r' = snapshot r"
  by (rule exec_invariant [OF assms, where P = "\<lambda>a. queue a = queue r \<and> snapshot a = snapshot r"])
     (simp_all add: step_const)

lemma start_fields:
  "queue (processQueue_start now now' s) = filter eligible (files s)"
  "snapshot (processQueue_start now now' s) = files s"
  "index (processQueue_start now now' s) = 0"
  "remaining (processQueue_start now now' s) = filter eligible (files s)"
  "total (stats (app (processQueue_start now now' s))) = length (files s)"
  "processed (stats (app (processQueue_start now now' s))) = 0"
  "success (stats (app (processQueue_start now now' s))) = success (stats s)"
  "failed (stats (app (processQueue_start now now' s))) = failed (stats s)"
  "files (app (processQueue_start now now' s)) =
     markProcessing (array_slice (filter eligible (files s)) 0 BATCH_SIZE) (markQueued (files s))"
  by (simp_all add: processQueue_start_def Let_def loop_const loop_remaining loop_files)

subsection \<open>Invariants of a run\<close>

lemma distinct_map_remove1:
  assumes "distinct (map h xs)"
  shows "distinct (map h (remove1 x xs))"
proof -
  from assms have "distinct xs" and inj: "inj_on h (set xs)"
    by (simp_all add: distinct_map)
  then have "distinct (remove1 x xs)" by simp
  moreover have "inj_on h (set (remove1 x xs))"
    using inj set_remove1_subset by (rule inj_on_subset)
  ultimately show ?thesis by (simp add: distinct_map)
qed

lemma uid_notin_remove1:
  assumes "distinct (map h xs)" and "x \<in> set xs"
  shows "h x \<notin> h ` set (remove1 x xs)"
proof
  from assms(1) have d: "distinct xs" and inj: "inj_on h (set xs)"
    by (simp_all add: distinct_map)
  assume "h x \<in> h ` set (remove1 x xs)"
  then obtain y where y: "y \<in> set (remove1 x xs)" "h y = h x" by auto
  from d have eq: "set (remove1 x xs) = set xs - {x}" by (rule set_remove1_eq)
  from y(1) eq have "y \<in> set xs" "y \<noteq> x" by auto
  with inj y(2) assms(2) show False by (auto dest: inj_onD)
qed

lemma step_pendingOk:
  assumes "step host r e = Some r'" and "pendingOk r"
  shows "pendingOk r'"
proof -
  note rm = step_remaining [OF assms(1)] and q = step_const(1) [OF assms(1)]
  show ?thesis
  proof (cases e)
    case (Settle f)
    then have "remaining r' = remove1 f (remaining r)" using rm by simp
    moreover have "set (remove1 f (remaining r)) \<subseteq> set (remaining r)"
      by (rule set_remove1_subset)
    ultimately show ?thesis using assms(2) q
      by (auto simp: pendingOk_def distinct_map_remove1)
  qed (use rm q assms(2) in \<open>simp_all add: pendingOk_def\<close>)
qed

lemma in_updateFileStatus:
  "g' \<in> set (updateFileStatus i u fs) \<Longrightarrow> \<exists>g \<in> set fs. g' = (if uid g = i then u g else g)"
  by (auto simp: updateFileStatus_def)

lemma in_markProcessing:
  "g' \<in> set (markProcessing b fs) \<Longrightarrow>
     \<exists>g \<in> set fs. g' = (if uid g \<in> uid ` set b then g\<lparr>status := PROCESSING\<rparr> else g)"
  by (auto simp: markProcessing_def)

lemma in_markQueued:
  "g' \<in> set (markQueued fs) \<Longrightarrow>
     \<exists>g \<in> set fs. g' = (if status g = IDLE then g\<lparr>status := QUEUED\<rparr> else g)"
  by (auto simp: markQueued_def)

lemma settleUpdate_uid: "uid (settleUpdate host f g) = uid g"
  by (simp add: settleUpdate_def split: sum.splits)

lemma settleUpdate_itemOk: "pdfBlob g = None \<Longrightarrow> itemOk (settleUpdate host f g)"
  by (simp add: settleUpdate_def itemOk_def split: sum.splits)

lemma processing_itemOk: "pdfBlob g = None \<Longrightarrow> itemOk (g\<lparr>status := PROCESSING\<rparr>)"
  by (simp add: itemOk_def)

lemma newFileData_fresh:
  "status (newFileData n) = IDLE" "pdfBlob (newFileData n) = None" "error (newFileData n) = None"
  "uid (newFileData n) = fst n" "itemOk (newFileData n)"
  by (simp_all add: newFileData_def itemOk_def)

lemma array_slice_next_subset:
  "set (array_slice q (i + BATCH_SIZE) (i + BATCH_SIZE + BATCH_SIZE)) \<subseteq> set (drop (i + BATCH_SIZE) q)"
  unfolding array_slice_def by (rule set_take_subset)

lemma step_storeOk:
  assumes st: "step host r e = Some r'" and p: "pendingOk r" and s: "storeOk r"
  shows "storeOk r'"
proof -
  note rm = step_remaining [OF st] and fs = step_files [OF st]
  show ?thesis
  proof (cases e)
    case (Settle f)
    have fin: "f \<in> set (remaining r)" using st Settle step_settle_member by blast
    have rem: "remaining r' = remove1 f (remaining r)" using rm Settle by simp
    have fl: "files (app r') = updateFileStatus (uid f) (settleUpdate host f) (files (app r))"
      using fs Settle by simp
    have nin: "uid f \<notin> uid ` set (remove1 f (remaining r))"
      using p fin by (simp add: pendingOk_def uid_notin_remove1)
    have sub: "uid ` set (remove1 f (remaining r)) \<subseteq> uid ` set (remaining r)"
      using set_remove1_subset [of f "remaining r"] by blast
    show ?thesis
      unfolding storeOk_def
    proof
      fix g' assume "g' \<in> set (files (app r'))"
      then obtain g where g: "g \<in> set (files (app r))"
        and g': "g' = (if uid g = uid f then settleUpdate host f g else g)"
        unfolding fl by (blast dest: in_updateFileStatus)
      from s g have ok: "itemOk g" and none: "uid g \<in> uid ` set (remaining r) \<Longrightarrow> pdfBlob g = None"
        by (auto simp: storeOk_def)
      show "itemOk g' \<and> (uid g' \<in> uid ` set (remaining r') \<longrightarrow> pdfBlob g' = None)"
      proof (cases "uid g = uid f")
        case True
        then have "pdfBlob g = None" using none fin by force
        then have "itemOk g'" using g' True by (simp add: settleUpdate_itemOk)
        moreover have "uid g' \<notin> uid ` set (remaining r')"
          using g' True nin rem by (simp add: settleUpdate_uid)
        ultimately show ?thesis by simp
      next
        case False
        then have "g' = g" using g' by simp
        then show ?thesis using ok none sub rem by auto
      qed
    qed
  next
    case WaveDone
    then show ?thesis using s rm fs by (simp add: storeOk_def)
  next
    case (Resume now)
    have ph: "phase r = Delaying" using st Resume by (auto split: if_splits)
    have rem: "remaining r' = remaining r" using rm Resume by simp
    have rdef: "remaining r = drop (index r + BATCH_SIZE) (queue r)"
      using ph by (simp add: remaining_def)
    let ?b = "array_slice (queue r) (index r + BATCH_SIZE) (index r + BATCH_SIZE + BATCH_SIZE)"
    have fl: "files (app r') = markProcessing ?b (files (app r))"
      using fs Resume by simp
    have sub: "uid ` set ?b \<subseteq> uid ` set (remaining r)"
      unfolding rdef using array_slice_next_subset [of "queue r" "index r"] by blast
    show ?thesis
      unfolding storeOk_def
    proof
      fix g' assume "g' \<in> set (files (app r'))"
      then obtain g where g: "g \<in> set (files (app r))"
        and g': "g' = (if uid g \<in> uid ` set ?b then g\<lparr>status := PROCESSING\<rparr> else g)"
        unfolding fl by (blast dest: in_markProcessing)
      from s g have ok: "itemOk g" and none: "uid g \<in> uid ` set (remaining r) \<Longrightarrow> pdfBlob g = None"
        by (auto simp: storeOk_def)
      show "itemOk g' \<and> (uid g' \<in> uid ` set (remaining r') \<longrightarrow> pdfBlob g' = None)"
      proof (cases "uid g \<in> uid ` set ?b")
        case True
        then have "pdfBlob g = None" using none sub by blast
        then show ?thesis using g' True by (simp add: processing_itemOk)
      next
        case False
        then have "g' = g" using g' by simp
        then show ?thesis using ok none rem by auto
      qed
    qed
  next
    case (FilesAdded n)
    then have "files (app r') = files (app r) @ map newFileData n" and "remaining r' = remaining r"
      using fs rm by simp_all
    then show ?thesis using s by (auto simp: storeOk_def newFileData_fresh)
  next
    case (RemoveFile i)
    then have "files (app r') = filter (\<lambda>f. uid f \<noteq> i) (files (app r))" and "remaining r' = remaining r"
      using fs rm by simp_all
    then show ?thesis using s by (auto simp: storeOk_def)
  qed
qed

lemma eligible_of_uid:
  assumes "distinct (map uid fs)" and "g \<in> set fs" and "uid g \<in> uid ` set (filter eligible fs)"
  shows "eligible g"
proof -
  from assms(3) obtain f where f: "f \<in> set fs" "eligible f" "uid f = uid g" by auto
  from assms(1) have "inj_on uid (set fs)" by (simp add: distinct_map)
  with f assms(2) have "f = g" by (auto dest: inj_onD)
  with f show ?thesis by simp
qed

lemma start_pendingOk:
  assumes "distinct (map uid (files s))"
  shows "pendingOk (processQueue_start now now' s)"
  using assms by (simp add: pendingOk_def start_fields distinct_map_filter)

lemma start_storeOk:
  assumes d: "distinct (map uid (files s))" and ok: "\<forall>g \<in> set (files s). itemOk g"
  shows "storeOk (processQueue_start now now' s)"
  unfolding storeOk_def start_fields
proof
  let ?q = "filter eligible (files s)"
  let ?b = "array_slice ?q 0 BATCH_SIZE"
  fix g'' assume "g'' \<in> set (markProcessing ?b (markQueued (files s)))"
  then obtain g' where g': "g' \<in> set (markQueued (files s))"
    and g'': "g'' = (if uid g' \<in> uid ` set ?b then g'\<lparr>status := PROCESSING\<rparr> else g')"
    by (blast dest: in_markProcessing)
  from g' obtain g where g: "g \<in> set (files s)"
    and gq: "g' = (if status g = IDLE then g\<lparr>status := QUEUED\<rparr> else g)"
    by (blast dest: in_markQueued)
  have okg: "itemOk g" using ok g by simp
  have okg': "itemOk g'" using okg gq by (auto simp: itemOk_def)
  have same: "uid g' = uid g" "pdfBlob g' = pdfBlob g" using gq by auto
  have pend: "pdfBlob g = None" if "uid g \<in> uid ` set ?q"
  proof -
    have "eligible g" using d g that by (rule eligible_of_uid)
    then show ?thesis using okg by (auto simp: eligible_def itemOk_def)
  qed
  have bsub: "uid ` set ?b \<subseteq> uid ` set ?q"
    using array_slice_subset [of ?q 0 BATCH_SIZE] by blast
  show "itemOk g'' \<and> (uid g'' \<in> uid ` set ?q \<longrightarrow> pdfBlob g'' = None)"
  proof (cases "uid g' \<in> uid ` set ?b")
    case True
    then have "pdfBlob g' = None" using pend bsub same by auto
    then show ?thesis using g'' True by (simp add: processing_itemOk)
  next
    case False
    then have "g'' = g'" using g'' by simp
    then show ?thesis using okg' pend same by auto
  qed
qed

lemma exec_storeOk:
  assumes "exec host r evs = Some r'" and "pendingOk r" and "storeOk r"
  shows "pendingOk r' \<and> storeOk r'"
  by (rule exec_invariant [OF assms(1), where P = "\<lambda>a. pendingOk a \<and> storeOk a"])
     (use assms(2,3) in \<open>auto intro: step_pendingOk step_storeOk\<close>)

lemma step_closureOk:
  assumes "step host r e = Some r'" and "closureOk r"
  shows "closureOk r'"
  using assms(2) step_const [OF assms(1)] by (simp add: closureOk_def)

lemma step_frameOk:
  assumes st: "step host r e = Some r'" and p: "pendingOk r" and k: "frameOk r"
  shows "frameOk r'"
proof -
  note fs = step_files [OF st] and q = step_const(1) [OF st] and sn = step_const(2) [OF st]
  show ?thesis
  proof (cases e)
    case (Settle f)
    have "f \<in> set (remaining r)" using st Settle step_settle_member by blast
    then have fq: "uid f \<in> uid ` set (queue r)" using p by (auto simp: pendingOk_def)
    have fl: "files (app r') = updateFileStatus (uid f) (settleUpdate host f) (files (app r))"
      using fs Settle by simp
    show ?thesis
      unfolding frameOk_def q sn
    proof (intro ballI impI)
      fix g' assume "g' \<in> set (files (app r'))" and out: "uid g' \<notin> uid ` set (queue r)"
      then obtain g where g: "g \<in> set (files (app r))"
        and g': "g' = (if uid g = uid f then settleUpdate host f g else g)"
        unfolding fl by (blast dest: in_updateFileStatus)
      have "uid g' = uid g" using g' by (simp add: settleUpdate_uid)
      with out fq have "g' = g" using g' by auto
      then show "g' \<in> set (snapshot r) \<or>
          (uid g' \<notin> uid ` set (snapshot r) \<and> status g' = IDLE \<and> pdfBlob g' = None \<and> error g' = None)"
        using k g out by (simp add: frameOk_def)
    qed
  next
    case WaveDone
    then show ?thesis using k fs q sn by (simp add: frameOk_def)
  next
    case (Resume now)
    let ?b = "array_slice (queue r) (index r + BATCH_SIZE) (index r + BATCH_SIZE + BATCH_SIZE)"
    have fl: "files (app r') = markProcessing ?b (files (app r))"
      using fs Resume by simp
    have sub: "uid ` set ?b \<subseteq> uid ` set (queue r)"
      using array_slice_subset [of "queue r"] by blast
    show ?thesis
      unfolding frameOk_def q sn
    proof (intro ballI impI)
      fix g' assume "g' \<in> set (files (app r'))" and out: "uid g' \<notin> uid ` set (queue r)"
      then obtain g where g: "g \<in> set (files (app r))"
        and g': "g' = (if uid g \<in> uid ` set ?b then g\<lparr>status := PROCESSING\<rparr> else g)"
        unfolding fl by (blast dest: in_markProcessing)
      have "uid g' = uid g" using g' by simp
      with out sub have "g' = g" using g' by auto
      then show "g' \<in> set (snapshot r) \<or>
          (uid g' \<notin> uid ` set (snapshot r) \<and> status g' = IDLE \<and> pdfBlob g' = None \<and> error g' = None)"
        using k g out by (simp add: frameOk_def)
    qed
  next
    case (FilesAdded n)
    then have fl: "files (app r') = files (app r) @ map newFileData n"
      using fs by simp
    have fresh: "\<forall>x \<in> set n. fst x \<notin> uid ` set (snapshot r)"
      using st FilesAdded by (auto simp: list_all_iff split: if_splits)
    show ?thesis
      unfolding frameOk_def q sn fl using k fresh
      by (auto simp: frameOk_def newFileData_fresh)
  next
    case (RemoveFile i)
    then have "files (app r') = filter (\<lambda>f. uid f \<noteq> i) (files (app r))"
      using fs by simp
    then show ?thesis using k q sn by (auto simp: frameOk_def)
  qed
qed

lemma settledAs_settleUpdate: "settledAs host f (settleUpdate host f g)"
  by (simp add: settledAs_def settleUpdate_def split: sum.splits)

lemma same_uid_same_item:
  assumes "distinct (map uid q)" and "f \<in> set q" and "f' \<in> set q" and "uid f = uid f'"
  shows "f = f'"
proof -
  from assms(1) have "inj_on uid (set q)" by (simp add: distinct_map)
  with assms(2-4) show ?thesis by (auto dest: inj_onD)
qed

lemma step_outcomesOk:
  assumes st: "step host r e = Some r'" and p: "pendingOk r" and c: "closureOk r"
      and l: "outcomesOk host r"
  shows "outcomesOk host r'"
proof -
  note fs = step_files [OF st] and q = step_const(1) [OF st] and rm = step_remaining [OF st]
  from c have dq: "distinct (map uid (queue r))" by (simp add: closureOk_def)
  from p have rq: "set (remaining r) \<subseteq> set (queue r)" by (simp add: pendingOk_def)
  show ?thesis
  proof (cases e)
    case (Settle f0)
    have f0r: "f0 \<in> set (remaining r)" using st Settle step_settle_member by blast
    then have f0q: "f0 \<in> set (queue r)" using rq by blast
    have fl: "files (app r') = updateFileStatus (uid f0) (settleUpdate host f0) (files (app r))"
      using fs Settle by simp
    have rem: "remaining r' = remove1 f0 (remaining r)" using rm Settle by simp
    show ?thesis
      unfolding outcomesOk_def q
    proof (intro ballI impI)
      fix g' f
      assume "g' \<in> set (files (app r'))" and fq: "f \<in> set (queue r)"
        and h: "uid g' = uid f \<and> f \<notin> set (remaining r')"
      then obtain g where g: "g \<in> set (files (app r))"
        and g': "g' = (if uid g = uid f0 then settleUpdate host f0 g else g)"
        unfolding fl by (blast dest: in_updateFileStatus)
      have ug: "uid g' = uid g" using g' by (simp add: settleUpdate_uid)
      show "settledAs host f g'"
      proof (cases "uid g = uid f0")
        case True
        then have "f = f0" using dq fq f0q h ug by (auto intro: same_uid_same_item)
        then show ?thesis using g' True by (simp add: settledAs_settleUpdate)
      next
        case False
        then have "f \<noteq> f0" using h ug by auto
        then have "f \<notin> set (remaining r)" using h rem by (simp add: in_set_remove1)
        moreover have "g' = g" using g' False by simp
        ultimately show ?thesis using l g fq h by (auto simp: outcomesOk_def)
      qed
    qed
  next
    case WaveDone
    then show ?thesis using l fs q rm by (simp add: outcomesOk_def)
  next
    case (Resume now)
    have ph: "phase r = Delaying" using st Resume by (auto split: if_splits)
    have rem: "remaining r' = remaining r" using rm Resume by simp
    have rdef: "remaining r = drop (index r + BATCH_SIZE) (queue r)"
      using ph by (simp add: remaining_def)
    let ?b = "array_slice (queue r) (index r + BATCH_SIZE) (index r + BATCH_SIZE + BATCH_SIZE)"
    have fl: "files (app r') = markProcessing ?b (files (app r))"
      using fs Resume by simp
    have sub: "set ?b \<subseteq> set (remaining r)"
      unfolding rdef by (rule array_slice_next_subset)
    show ?thesis
      unfolding outcomesOk_def q
    proof (intro ballI impI)
      fix g' f
      assume "g' \<in> set (files (app r'))" and fq: "f \<in> set (queue r)"
        and h: "uid g' = uid f \<and> f \<notin> set (remaining r')"
      then obtain g where g: "g \<in> set (files (app r))"
        and g': "g' = (if uid g \<in> uid ` set ?b then g\<lparr>status := PROCESSING\<rparr> else g)"
        unfolding fl by (blast dest: in_markProcessing)
      have ug: "uid g' = uid g" using g' by simp
      have "uid g \<notin> uid ` set ?b"
      proof
        assume "uid g \<in> uid ` set ?b"
        then obtain bf where bf: "bf \<in> set ?b" "uid bf = uid g" by auto
        then have "bf \<in> set (remaining r)" using sub by blast
        moreover from this have "bf \<in> set (queue r)" using rq by blast
        then have "bf = f" using dq fq bf h ug by (auto intro: same_uid_same_item)
        ultimately show False using h rem by simp
      qed
      then have "g' = g" using g' by simp
      then show "settledAs host f g'" using l g fq h rem by (auto simp: outcomesOk_def)
    qed
  next
    case (FilesAdded n)
    then have fl: "files (app r') = files (app r) @ map newFileData n"
      and rem: "remaining r' = remaining r"
      using fs rm by simp_all
    have fresh: "\<forall>x \<in> set n. fst x \<notin> uid ` set (snapshot r)"
      using st FilesAdded by (auto simp: list_all_iff split: if_splits)
    have qs: "uid ` set (queue r) \<subseteq> uid ` set (snapshot r)"
      using c by (auto simp: closureOk_def)
    show ?thesis
      unfolding outcomesOk_def q fl rem
    proof (intro ballI impI)
      fix g' f
      assume g'in: "g' \<in> set (files (app r) @ map newFileData n)" and fq: "f \<in> set (queue r)"
        and h: "uid g' = uid f \<and> f \<notin> set (remaining r)"
      have "g' \<notin> set (map newFileData n)"
      proof
        assume "g' \<in> set (map newFileData n)"
        then obtain x where "x \<in> set n" "g' = newFileData x" by auto
        then have "uid g' \<notin> uid ` set (snapshot r)" using fresh by (simp add: newFileData_fresh)
        then show False using qs fq h by auto
      qed
      then have "g' \<in> set (files (app r))" using g'in by simp
      then show "settledAs host f g'" using l fq h by (auto simp: outcomesOk_def)
    qed
  next
    case (RemoveFile i)
    then have "files (app r') = filter (\<lambda>f. uid f \<noteq> i) (files (app r))" and "remaining r' = remaining r"
      using fs rm by simp_all
    then show ?thesis using l q by (auto simp: outcomesOk_def)
  qed
qed

lemma start_closureOk:
  assumes "distinct (map uid (files s))"
  shows "closureOk (processQueue_start now now' s)"
  using assms by (simp add: closureOk_def start_fields distinct_map_filter)

lemma start_outcomesOk: "outcomesOk host (processQueue_start now now' s)"
  by (simp add: outcomesOk_def start_fields)

lemma start_frameOk: "frameOk (processQueue_start now now' s)"
  unfolding frameOk_def start_fields
proof (intro ballI impI)
  let ?q = "filter eligible (files s)"
  let ?b = "array_slice ?q 0 BATCH_SIZE"
  fix g'' assume "g'' \<in> set (markProcessing ?b (markQueued (files s)))"
    and out: "uid g'' \<notin> uid ` set ?q"
  then obtain g' where g': "g' \<in> set (markQueued (files s))"
    and g'': "g'' = (if uid g' \<in> uid ` set ?b then g'\<lparr>status := PROCESSING\<rparr> else g')"
    by (blast dest: in_markProcessing)
  from g' obtain g where g: "g \<in> set (files s)"
    and gq: "g' = (if status g = IDLE then g\<lparr>status := QUEUED\<rparr> else g)"
    by (blast dest: in_markQueued)
  have bsub: "uid ` set ?b \<subseteq> uid ` set ?q"
    using array_slice_subset [of ?q 0 BATCH_SIZE] by blast
  have "uid g'' = uid g'" using g'' by simp
  with out bsub have a: "g'' = g'" using g'' by auto
  have "uid g' = uid g" using gq by simp
  with out a g have "\<not> eligible g" by auto
  then have "g' = g" using gq by (auto simp: eligible_def)
  with a g show "g'' \<in> set (files s) \<or>
     (uid g'' \<notin> uid ` set (files s) \<and> status g'' = IDLE \<and> pdfBlob g'' = None \<and> error g'' = None)"
    by simp
qed

lemma exec_run_invariants:
  assumes ex: "exec host (processQueue_start now now' s) evs = Some r"
      and d: "distinct (map uid (files s))"
  shows "pendingOk r \<and> closureOk r \<and> frameOk r \<and> outcomesOk host r"
  by (rule exec_invariant [OF ex, where P = "\<lambda>a. pendingOk a \<and> closureOk a \<and> frameOk a \<and> outcomesOk host a"])
     (use d in \<open>auto intro: start_pendingOk start_closureOk start_frameOk start_outcomesOk
                  step_pendingOk step_closureOk step_frameOk step_outcomesOk\<close>)

subsection \<open>The waves of a run\<close>

lemma batchesFrom_more:
  "i < length q \<Longrightarrow> batchesFrom i q = array_slice q i (i + BATCH_SIZE) # batchesFrom (i + BATCH_SIZE) q"
  by (subst batchesFrom.simps) simp

lemma batchesFrom_end: "\<not> i < length q \<Longrightarrow> batchesFrom i q = []"
  by (subst batchesFrom.simps) simp

lemma batches_concat: "concat (batchesFrom i q) = drop i q"
proof (induction i q rule: batchesFrom.induct)
  case (1 i q)
  show ?case
  proof (cases "i < length q")
    case True
    then show ?thesis using 1 by (simp add: batchesFrom_more array_slice_append_drop)
  next
    case False
    then show ?thesis by (simp add: batchesFrom_end)
  qed
qed

lemma batches_size: "b \<in> set (batchesFrom i q) \<Longrightarrow> b \<noteq> [] \<and> length b \<le> BATCH_SIZE"
proof (induction i q rule: batchesFrom.induct)
  case (1 i q)
  show ?case
  proof (cases "i < length q")
    case True
    then show ?thesis using 1 by (auto simp: batchesFrom_more array_slice_length array_slice_nonempty)
  next
    case False
    then show ?thesis using 1 by (simp add: batchesFrom_end)
  qed
qed

lemma batches_lengths_12:
  assumes "length q = 12"
  shows "map length (batchesFrom 0 q) = [5, 5, 2]"
proof -
  have "batchesFrom 0 q = [array_slice q 0 5, array_slice q 5 10, array_slice q 10 15]"
    using assms by (simp add: batchesFrom_more batchesFrom_end BATCH_SIZE_def)
  then show ?thesis using assms by (simp add: array_slice_def)
qed

lemma waves_from:
  assumes "exec host r evs = Some r'" and "phase r' = Finished"
  shows "(phase r = Converting \<longrightarrow>
            (\<exists>w ws. settledWaves cur evs = w # ws \<and> mset w = mset cur + mset (inflight r)
               \<and> list_all2 (\<lambda>w b. mset w = mset b) ws (batchesFrom (index r + BATCH_SIZE) (queue r))))
       \<and> (phase r = Delaying \<longrightarrow>
            (\<exists>ws. settledWaves cur evs = cur # ws
               \<and> list_all2 (\<lambda>w b. mset w = mset b) ws (batchesFrom (index r + BATCH_SIZE) (queue r))))
       \<and> (phase r = Finished \<longrightarrow> settledWaves cur evs = [])"
  using assms
proof (induction evs arbitrary: r cur)
  case Nil
  then show ?case by simp
next
  case (Cons e es)
  then obtain r1 where st: "step host r e = Some r1" and rest: "exec host r1 es = Some r'"
    by (auto split: option.splits)
  note ih = Cons.IH [OF rest Cons.prems(2)]
  show ?case
  proof (cases e)
    case (Settle f)
    with st have ph: "phase r = Converting" and fin: "f \<in> set (inflight r)"
      and r1: "r1 = r\<lparr>app := processFile_settle host f (app r), inflight := remove1 f (inflight r)\<rparr>"
      by (auto split: if_splits)
    from ih [of "cur @ [f]"] r1 ph obtain w ws where
      w: "settledWaves (cur @ [f]) es = w # ws"
         "mset w = mset (cur @ [f]) + mset (remove1 f (inflight r))"
         "list_all2 (\<lambda>w b. mset w = mset b) ws (batchesFrom (index r + BATCH_SIZE) (queue r))"
      by auto
    have "mset (cur @ [f]) + mset (remove1 f (inflight r)) = mset cur + mset (inflight r)"
      using fin by simp
    with w ph Settle show ?thesis by simp
  next
    case WaveDone
    with st have ph: "phase r = Converting" and em: "inflight r = []"
      and r1: "r1 = r\<lparr>phase := Delaying\<rparr>"
      by (auto split: if_splits)
    from ih [of cur] r1 obtain ws where
      "settledWaves cur es = cur # ws"
      "list_all2 (\<lambda>w b. mset w = mset b) ws (batchesFrom (index r + BATCH_SIZE) (queue r))"
      by auto
    with ph em WaveDone show ?thesis by simp
  next
    case (Resume now)
    with st have ph: "phase r = Delaying"
      and r1: "r1 = processQueue_loop now (r\<lparr>index := index r + BATCH_SIZE\<rparr>)"
      by (auto split: if_splits)
    let ?i = "index r + BATCH_SIZE"
    show ?thesis
    proof (cases "?i < length (queue r)")
      case True
      then have a: "phase r1 = Converting" "inflight r1 = array_slice (queue r) ?i (?i + BATCH_SIZE)"
        "index r1 = ?i" "queue r1 = queue r"
        unfolding r1 by (simp_all add: loop_more)
      from ih [of "[]"] a obtain w ws where
        w: "settledWaves [] es = w # ws" "mset w = mset (array_slice (queue r) ?i (?i + BATCH_SIZE))"
           "list_all2 (\<lambda>w b. mset w = mset b) ws (batchesFrom (?i + BATCH_SIZE) (queue r))"
        by auto
      have "batchesFrom ?i (queue r) = array_slice (queue r) ?i (?i + BATCH_SIZE) # batchesFrom (?i + BATCH_SIZE) (queue r)"
        using True by (rule batchesFrom_more)
      with w ph Resume show ?thesis by simp
    next
      case False
      then have "phase r1 = Finished" unfolding r1 by (simp add: loop_end)
      with ih [of "[]"] have "settledWaves [] es = []" by simp
      moreover have "batchesFrom ?i (queue r) = []" using False by (rule batchesFrom_end)
      ultimately show ?thesis using ph Resume by simp
    qed
  next
    case (FilesAdded n)
    with st have "phase r1 = phase r" "inflight r1 = inflight r" "index r1 = index r" "queue r1 = queue r"
      by (auto split: if_splits)
    with ih [of cur] FilesAdded show ?thesis by simp
  next
    case (RemoveFile i)
    with st have "phase r1 = phase r" "inflight r1 = inflight r" "index r1 = index r" "queue r1 = queue r"
      by auto
    with ih [of cur] RemoveFile show ?thesis by simp
  qed
qed

lemma start_phase:
  "phase (processQueue_start now now' s) =
     (if filter eligible (files s) = [] then Finished else Converting)"
  "inflight (processQueue_start now now' s) = array_slice (filter eligible (files s)) 0 BATCH_SIZE"
  by (simp_all add: processQueue_start_def processQueue_loop_def Let_def array_slice_def)

lemma run_waves:
  assumes "exec host (processQueue_start now now' s) evs = Some r" and "phase r = Finished"
  shows "list_all2 (\<lambda>w b. mset w = mset b) (settledWaves [] evs) (batchesFrom 0 (filter eligible (files s)))"
proof (cases "filter eligible (files s) = []")
  case True
  then have "phase (processQueue_start now now' s) = Finished" by (simp add: start_phase)
  with waves_from [OF assms, of "[]"] have "settledWaves [] evs = []" by simp
  then show ?thesis using True by (simp add: batchesFrom_end)
next
  case False
  let ?q = "filter eligible (files s)"
  from False have ph: "phase (processQueue_start now now' s) = Converting" by (simp add: start_phase)
  with waves_from [OF assms, of "[]"] obtain w ws where
    w: "settledWaves [] evs = w # ws" "mset w = mset (array_slice ?q 0 BATCH_SIZE)"
       "list_all2 (\<lambda>w b. mset w = mset b) ws (batchesFrom BATCH_SIZE ?q)"
    by (auto simp: start_phase start_fields)
  have "batchesFrom 0 ?q = array_slice ?q 0 (0 + BATCH_SIZE) # batchesFrom (0 + BATCH_SIZE) ?q"
    using False by (intro batchesFrom_more) simp
  with w show ?thesis by simp
qed

lemma run_final_stats:
  assumes "exec host (processQueue_start now now' s) evs = Some r" and "phase r = Finished"
  shows "total (stats (app r)) = length (files s)"
    and "processed (stats (app r)) = length (filter eligible (files s))"
    and "success (stats (app r)) = success (stats s) + length (filter (converts host) (filter eligible (files s)))"
    and "failed (stats (app r)) = failed (stats s) + length (filter (\<lambda>f. \<not> converts host f) (filter eligible (files s)))"
proof -
  have "remaining r = []" using assms(2) by (simp add: remaining_def)
  with exec_potential [OF assms(1)]
  show "total (stats (app r)) = length (files s)"
    and "processed (stats (app r)) = length (filter eligible (files s))"
    and "success (stats (app r)) = success (stats s) + length (filter (converts host) (filter eligible (files s)))"
    and "failed (stats (app r)) = failed (stats s) + length (filter (\<lambda>f. \<not> converts host f) (filter eligible (files s)))"
    by (simp_all add: start_fields)
qed

lemma exec_append:
  "exec host r (xs @ ys) = (case exec host r xs of None \<Rightarrow> None | Some r1 \<Rightarrow> exec host r1 ys)"
  by (induction xs arbitrary: r) (auto split: option.splits)

lemma exec_append_Some:
  "exec host r xs = Some r1 \<Longrightarrow> exec host r1 ys = Some r2 \<Longrightarrow> exec host r (xs @ ys) = Some r2"
  by (simp add: exec_append)

lemma exec_settle_all:
  assumes "phase r = Converting"
  shows "\<exists>r1. exec host r (map Settle (inflight r)) = Some r1 \<and> phase r1 = Converting
            \<and> inflight r1 = [] \<and> index r1 = index r \<and> queue r1 = queue r"
  using assms
proof (induction "inflight r" arbitrary: r)
  case Nil
  then show ?case by simp
next
  case (Cons f b)
  let ?r = "r\<lparr>app := processFile_settle host f (app r), inflight := b\<rparr>"
  from Cons.hyps(2) [symmetric] Cons.prems have st: "step host r (Settle f) = Some ?r"
    by simp
  have "b = inflight ?r" "phase ?r = Converting" using Cons.prems by simp_all
  from Cons.hyps(1) [OF this] obtain r1 where
    "exec host ?r (map Settle b) = Some r1" "phase r1 = Converting" "inflight r1 = []"
    "index r1 = index r" "queue r1 = queue r"
    by auto
  then show ?case using st Cons.hyps(2) [symmetric] by simp
qed

lemma exec_waves_from:
  assumes "phase r = Converting" and "inflight r = array_slice (queue r) (index r) (index r + BATCH_SIZE)"
      and "index r < length (queue r)" and "i = index r" and "q = queue r"
  shows "\<exists>r'. exec host r (concat (map (\<lambda>b. map Settle b @ [WaveDone, Resume now]) (batchesFrom i q))) = Some r'
            \<and> phase r' = Finished"
  using assms
proof (induction i q arbitrary: r rule: batchesFrom.induct)
  case (1 i q)
  let ?b = "array_slice q i (i + BATCH_SIZE)"
  let ?w = "\<lambda>b. map Settle b @ [WaveDone, Resume now]"
  have lt: "i < length q" using 1 by simp
  from exec_settle_all [OF \<open>phase r = Converting\<close>, of host] obtain r1 where
    r1: "exec host r (map Settle (inflight r)) = Some r1" "phase r1 = Converting"
        "inflight r1 = []" "index r1 = i" "queue r1 = q"
    using 1 by auto
  let ?r2 = "r1\<lparr>phase := Delaying\<rparr>"
  let ?r3 = "processQueue_loop now (?r2\<lparr>index := index ?r2 + BATCH_SIZE\<rparr>)"
  have s2: "step host r1 WaveDone = Some ?r2" using r1 by simp
  have s3: "step host ?r2 (Resume now) = Some ?r3" by simp
  have "exec host r1 [WaveDone, Resume now] = Some ?r3"
    using s2 s3 by simp
  moreover have "exec host r (map Settle ?b) = Some r1"
    using r1(1) 1(3) 1(5) 1(6) by simp
  ultimately have wave: "exec host r (?w ?b) = Some ?r3"
    by (rule exec_append_Some [rotated])
  have bs: "batchesFrom i q = ?b # batchesFrom (i + BATCH_SIZE) q"
    using lt by (rule batchesFrom_more)
  show ?case
  proof (cases "i + BATCH_SIZE < length q")
    case True
    then have "phase ?r3 = Converting"
      "inflight ?r3 = array_slice (queue ?r3) (index ?r3) (index ?r3 + BATCH_SIZE)"
      "index ?r3 < length (queue ?r3)" "i + BATCH_SIZE = index ?r3" "q = queue ?r3"
      using r1 by (simp_all add: loop_more loop_const)
    from 1(1) [OF lt this] obtain r' where
      r': "exec host ?r3 (concat (map ?w (batchesFrom (i + BATCH_SIZE) q))) = Some r'" "phase r' = Finished"
      by auto
    have "exec host r (?w ?b @ concat (map ?w (batchesFrom (i + BATCH_SIZE) q))) = Some r'"
      using wave r'(1) by (rule exec_append_Some)
    then show ?thesis using r'(2) unfolding bs by auto
  next
    case False
    then have "phase ?r3 = Finished" using r1 by (simp add: loop_end)
    moreover have "batchesFrom (i + BATCH_SIZE) q = []" using False by (rule batchesFrom_end)
    ultimately show ?thesis using wave unfolding bs by auto
  qed
qed

lemma run_inOrder:
  "\<exists>r. exec host (processQueue_start now now' s) (inOrder t (filter eligible (files s))) = Some r
        \<and> phase r = Finished"
proof (cases "filter eligible (files s) = []")
  case True
  then show ?thesis by (simp add: inOrder_def batchesFrom_end start_phase)
next
  case False
  let ?r = "processQueue_start now now' s"
  have "phase ?r = Converting" "inflight ?r = array_slice (queue ?r) (index ?r) (index ?r + BATCH_SIZE)"
    "index ?r < length (queue ?r)" "0 = index ?r" "filter eligible (files s) = queue ?r"
    using False by (simp_all add: start_phase start_fields)
  from exec_waves_from [OF this] show ?thesis unfolding inOrder_def by blast
qed

subsection \<open>Reachable states\<close>

lemma converts_iff: "converts host f \<longleftrightarrow> validJpeg host f"
  by (cases "imageLoad host (previewUrl f)"; cases "addImageAccepts host (arrayBuffer (file_obj f))")
     (auto simp: converts_def validJpeg_def convertImageToPDF_def getImageDimensions_def
        addImage_def new_jsPDF_def Let_def)

lemma inOrder_no_removal: "\<not> list_ex isRemoval (inOrder now q)"
  by (auto simp: inOrder_def list_ex_iff)

lemma map_uid_markProcessing: "map uid (markProcessing b fs) = map uid fs"
  by (induction fs) (simp_all add: markProcessing_def)

lemma map_uid_markQueued: "map uid (markQueued fs) = map uid fs"
  by (induction fs) (simp_all add: markQueued_def)

lemma map_uid_settle: "map uid (updateFileStatus i (settleUpdate host f) fs) = map uid fs"
  by (induction fs) (simp_all add: updateFileStatus_def settleUpdate_uid)

lemma step_distinct:
  assumes st: "step host r e = Some r'" and d: "distinct (map uid (files (app r)))"
  shows "distinct (map uid (files (app r')))"
proof (cases e)
  case (FilesAdded n)
  with st have en: "distinct (map fst n)" "\<forall>x \<in> set n. fst x \<notin> uid ` set (files (app r))"
    by (auto simp: list_all_iff split: if_splits)
  have m: "map uid (map newFileData n) = map fst n"
    by (simp add: newFileData_fresh)
  have "files (app r') = files (app r) @ map newFileData n"
    using step_files [OF st] FilesAdded by simp
  then have "map uid (files (app r')) = map uid (files (app r)) @ map fst n"
    using m by simp
  moreover have "set (map uid (files (app r))) \<inter> set (map fst n) = {}"
    using en(2) by force
  ultimately show ?thesis using d en(1) by simp
next
  case (RemoveFile i)
  then show ?thesis using step_files [OF st] d by (simp add: distinct_map_filter)
qed (use step_files [OF st] d in \<open>simp_all add: map_uid_settle map_uid_markProcessing\<close>)

lemma exec_distinct:
  assumes "exec host r evs = Some r'" and "distinct (map uid (files (app r)))"
  shows "distinct (map uid (files (app r')))"
  by (rule exec_invariant [OF assms(1), where P = "\<lambda>a. distinct (map uid (files (app a)))"])
     (use assms(2) in \<open>auto intro: step_distinct\<close>)

lemma start_distinct:
  "distinct (map uid (files s)) \<Longrightarrow> distinct (map uid (files (app (processQueue_start now now' s))))"
  by (simp add: start_fields map_uid_markProcessing map_uid_markQueued)

lemma run_storeOk:
  assumes "exec host (processQueue_start now now' s) evs = Some r"
      and "distinct (map uid (files s))" and "\<forall>g \<in> set (files s). itemOk g"
  shows "\<forall>g \<in> set (files (app r)). itemOk g"
proof -
  have "pendingOk r \<and> storeOk r"
    using assms by (intro exec_storeOk [OF assms(1)] start_pendingOk start_storeOk)
  then show ?thesis by (simp add: storeOk_def)
qed

lemma reachable_ok:
  "reachable s \<Longrightarrow> distinct (map uid (files s)) \<and> (\<forall>g \<in> set (files s). itemOk g)"
proof (induction rule: reachable.induct)
  case initial
  then show ?case by (simp add: initialState_def)
next
  case (added s newFiles)
  have "map uid (map newFileData newFiles) = map fst newFiles"
    by (simp add: newFileData_fresh)
  then have "map uid (files (handleFilesAdded newFiles s)) = map uid (files s) @ map fst newFiles"
    by (simp add: handleFilesAdded_def)
  moreover have "set (map uid (files s)) \<inter> set (map fst newFiles) = {}"
    using added(3) by force
  ultimately have "distinct (map uid (files (handleFilesAdded newFiles s)))"
    using added by simp
  moreover have "\<forall>g \<in> set (files (handleFilesAdded newFiles s)). itemOk g"
    using added by (auto simp: handleFilesAdded_def newFileData_fresh)
  ultimately show ?case by simp
next
  case (removed s i)
  then show ?case by (auto simp: handleRemoveFile_def distinct_map_filter)
next
  case (cleared s)
  then show ?case by (simp add: handleClearAll_def)
next
  case (ran s host now now' evs r)
  then show ?case
    using exec_distinct [OF ran(2) start_distinct] run_storeOk [OF ran(2)] by blast
qed

subsection \<open>The stages of a queue member, and what stays in the store\<close>

lemma remaining_waiting:
  "phase r = Converting \<Longrightarrow> remaining r = inflight r @ waiting r"
  "phase r = Delaying \<Longrightarrow> remaining r = waiting r"
  by (simp_all add: remaining_def waiting_def)

lemma distinct_map_append_disjoint:
  "distinct (map h (xs @ ys)) \<Longrightarrow> y \<in> set ys \<Longrightarrow> h y \<notin> h ` set xs"
  by auto

lemma step_stageOk:
  assumes st: "step host r e = Some r'" and p: "pendingOk r" and c: "closureOk r" and v: "stageOk r"
  shows "stageOk r'"
proof -
  note fs = step_files [OF st] and q = step_const(1) [OF st]
  from p have dr: "distinct (map uid (remaining r))" by (simp add: pendingOk_def)
  show ?thesis
  proof (cases e)
    case (Settle f0)
    with st have ph: "phase r = Converting" and f0: "f0 \<in> set (inflight r)"
      and r': "r' = r\<lparr>app := processFile_settle host f0 (app r), inflight := remove1 f0 (inflight r)\<rparr>"
      by (auto split: if_splits)
    have w: "waiting r' = waiting r" and i: "inflight r' = remove1 f0 (inflight r)"
      unfolding r' by (simp_all add: waiting_def)
    have fl: "files (app r') = updateFileStatus (uid f0) (settleUpdate host f0) (files (app r))"
      using fs Settle by simp
    have rem: "remaining r = inflight r @ waiting r" using ph by (rule remaining_waiting)
    have rm1: "remove1 f0 (remaining r) = remove1 f0 (inflight r) @ waiting r"
      unfolding rem using f0 by (simp add: remove1_append)
    have nin: "uid f0 \<notin> uid ` set (remove1 f0 (remaining r))"
      using dr f0 rem by (intro uid_notin_remove1) simp_all
    show ?thesis
      unfolding stageOk_def q w i
    proof (intro ballI impI)
      fix g' f
      assume "g' \<in> set (files (app r'))" and fq: "f \<in> set (queue r)" and u: "uid g' = uid f"
      then obtain g where g: "g \<in> set (files (app r))"
        and g': "g' = (if uid g = uid f0 then settleUpdate host f0 g else g)"
        unfolding fl by (blast dest: in_updateFileStatus)
      have ug: "uid g' = uid g" using g' by (simp add: settleUpdate_uid)
      have keep: "g' = g" if "f \<in> set (remove1 f0 (remaining r))"
      proof -
        from that have "uid f \<in> uid ` set (remove1 f0 (remaining r))" by (rule imageI)
        with nin have "uid f \<noteq> uid f0" by auto
        with u ug g' show ?thesis by simp
      qed
      from v g fq u ug have vg:
        "f \<in> set (waiting r) \<longrightarrow> g = (if status f = IDLE then f\<lparr>status := QUEUED\<rparr> else f)"
        "f \<in> set (inflight r) \<longrightarrow> g = f\<lparr>status := PROCESSING\<rparr>"
        by (auto simp: stageOk_def)
      have a: "g' = (if status f = IDLE then f\<lparr>status := QUEUED\<rparr> else f)" if "f \<in> set (waiting r)"
      proof -
        have "f \<in> set (remove1 f0 (remaining r))" using that rm1 by simp
        then have "g' = g" by (rule keep)
        with vg(1) that show ?thesis by simp
      qed
      have b: "g' = f\<lparr>status := PROCESSING\<rparr>" if "f \<in> set (remove1 f0 (inflight r))"
      proof -
        have "f \<in> set (remove1 f0 (remaining r))" using that rm1 by simp
        then have "g' = g" by (rule keep)
        moreover have "f \<in> set (inflight r)" using that set_remove1_subset by fastforce
        ultimately show ?thesis using vg(2) by simp
      qed
      from a b show "(f \<in> set (waiting r) \<longrightarrow> g' = (if status f = IDLE then f\<lparr>status := QUEUED\<rparr> else f))
         \<and> (f \<in> set (remove1 f0 (inflight r)) \<longrightarrow> g' = f\<lparr>status := PROCESSING\<rparr>)"
        by blast
    qed
  next
    case WaveDone
    with st have "waiting r' = waiting r" "inflight r' = inflight r"
      by (auto simp: waiting_def split: if_splits)
    then show ?thesis using v fs q WaveDone by (simp add: stageOk_def)
  next
    case (Resume now)
    with st have ph: "phase r = Delaying"
      and r': "r' = processQueue_loop now (r\<lparr>index := index r + BATCH_SIZE\<rparr>)"
      by (auto split: if_splits)
    let ?i = "index r + BATCH_SIZE"
    let ?b = "array_slice (queue r) ?i (?i + BATCH_SIZE)"
    have fl: "files (app r') = markProcessing ?b (files (app r))"
      using fs Resume by simp
    have wr: "waiting r = drop ?i (queue r)" using ph by (simp add: waiting_def)
    show ?thesis
    proof (cases "?i < length (queue r)")
      case True
      then have a: "phase r' = Converting" "inflight r' = ?b" "index r' = ?i"
        unfolding r' by (simp_all add: loop_more)
      then have wr': "waiting r' = drop (?i + BATCH_SIZE) (queue r)"
        using q by (simp add: waiting_def)
      have split: "waiting r = ?b @ waiting r'"
        unfolding wr wr' by (rule array_slice_append_drop [symmetric])
      have dw: "distinct (map uid (?b @ waiting r'))"
        using dr ph split by (simp add: remaining_waiting)
      show ?thesis
        unfolding stageOk_def q a(2)
      proof (intro ballI impI)
        fix g' f
        assume "g' \<in> set (files (app r'))" and fq: "f \<in> set (queue r)" and u: "uid g' = uid f"
        then obtain g where g: "g \<in> set (files (app r))"
          and g': "g' = (if uid g \<in> uid ` set ?b then g\<lparr>status := PROCESSING\<rparr> else g)"
          unfolding fl by (blast dest: in_markProcessing)
        have ug: "uid g' = uid g" using g' by simp
        from v g fq u ug have vg:
          "f \<in> set (waiting r) \<longrightarrow> g = (if status f = IDLE then f\<lparr>status := QUEUED\<rparr> else f)"
          by (auto simp: stageOk_def)
        have x: "g' = (if status f = IDLE then f\<lparr>status := QUEUED\<rparr> else f)" if "f \<in> set (waiting r')"
        proof -
          have "uid f \<notin> uid ` set ?b" using dw that by (rule distinct_map_append_disjoint)
          then have "g' = g" using g' u ug by simp
          moreover have "f \<in> set (waiting r)" using that split by simp
          ultimately show ?thesis using vg by simp
        qed
        have y: "g' = f\<lparr>status := PROCESSING\<rparr>" if "f \<in> set ?b"
        proof -
          have "uid g \<in> uid ` set ?b" using that u ug by force
          then have "g' = g\<lparr>status := PROCESSING\<rparr>" using g' by simp
          moreover have "f \<in> set (waiting r)" using that split by simp
          ultimately show ?thesis using vg by auto
        qed
        from x y show "(f \<in> set (waiting r') \<longrightarrow> g' = (if status f = IDLE then f\<lparr>status := QUEUED\<rparr> else f))
           \<and> (f \<in> set ?b \<longrightarrow> g' = f\<lparr>status := PROCESSING\<rparr>)"
          by blast
      qed
    next
      case False
      then have "phase r' = Finished" "inflight r' = inflight r" "files (app r') = files (app r)"
        unfolding r' by (simp_all add: loop_end)
      then show ?thesis using v q by (simp add: stageOk_def waiting_def)
    qed
  next
    case (FilesAdded n)
    with st have same: "waiting r' = waiting r" "inflight r' = inflight r"
      by (auto simp: waiting_def split: if_splits)
    have fl: "files (app r') = files (app r) @ map newFileData n"
      using fs FilesAdded by simp
    have fresh: "\<forall>x \<in> set n. fst x \<notin> uid ` set (snapshot r)"
      using st FilesAdded by (auto simp: list_all_iff split: if_splits)
    have qs: "uid ` set (queue r) \<subseteq> uid ` set (snapshot r)"
      using c by (auto simp: closureOk_def)
    show ?thesis
      unfolding stageOk_def q same fl
    proof (intro ballI impI)
      fix g' f
      assume g'in: "g' \<in> set (files (app r) @ map newFileData n)" and fq: "f \<in> set (queue r)"
        and u: "uid g' = uid f"
      have "g' \<notin> set (map newFileData n)"
      proof
        assume "g' \<in> set (map newFileData n)"
        then obtain x where "x \<in> set n" "g' = newFileData x" by auto
        then have "uid g' \<notin> uid ` set (snapshot r)" using fresh by (simp add: newFileData_fresh)
        then show False using qs fq u by auto
      qed
      then have "g' \<in> set (files (app r))" using g'in by simp
      then show "(f \<in> set (waiting r) \<longrightarrow> g' = (if status f = IDLE then f\<lparr>status := QUEUED\<rparr> else f))
           \<and> (f \<in> set (inflight r) \<longrightarrow> g' = f\<lparr>status := PROCESSING\<rparr>)"
        using v fq u by (auto simp: stageOk_def)
    qed
  next
    case (RemoveFile i)
    with st have same: "waiting r' = waiting r" "inflight r' = inflight r"
      by (auto simp: waiting_def)
    have "files (app r') = filter (\<lambda>f. uid f \<noteq> i) (files (app r))"
      using fs RemoveFile by simp
    then show ?thesis using v q same by (auto simp: stageOk_def)
  qed
qed

lemma start_stageOk:
  assumes d: "distinct (map uid (files s))"
  shows "stageOk (processQueue_start now now' s)"
proof -
  let ?r = "processQueue_start now now' s"
  let ?q = "filter eligible (files s)"
  let ?b = "array_slice ?q 0 BATCH_SIZE"
  have dq: "distinct (map uid ?q)" using d by (rule distinct_map_filter)
  have w: "set (waiting ?r) \<subseteq> set (drop BATCH_SIZE ?q)"
    by (simp add: waiting_def start_fields)
  have split: "?q = ?b @ drop BATCH_SIZE ?q"
    using array_slice_append_drop [of ?q 0] by simp
  have dw: "distinct (map uid (?b @ drop BATCH_SIZE ?q))"
    using dq split by simp
  show ?thesis
    unfolding stageOk_def start_fields start_phase
  proof (intro ballI impI)
    fix g'' f
    assume "g'' \<in> set (markProcessing ?b (markQueued (files s)))" and fq: "f \<in> set ?q"
      and u: "uid g'' = uid f"
    then obtain g' where g': "g' \<in> set (markQueued (files s))"
      and g'': "g'' = (if uid g' \<in> uid ` set ?b then g'\<lparr>status := PROCESSING\<rparr> else g')"
      by (blast dest: in_markProcessing)
    from g' obtain g where g: "g \<in> set (files s)"
      and gq: "g' = (if status g = IDLE then g\<lparr>status := QUEUED\<rparr> else g)"
      by (blast dest: in_markQueued)
    have ug: "uid g'' = uid g'" "uid g' = uid g" using g'' gq by auto
    have "g = f" using d g fq u ug by (intro same_uid_same_item [of "files s"]) simp_all
    then have g'f: "g' = (if status f = IDLE then f\<lparr>status := QUEUED\<rparr> else f)" using gq by simp
    have x: "g'' = (if status f = IDLE then f\<lparr>status := QUEUED\<rparr> else f)" if "f \<in> set (waiting ?r)"
    proof -
      have "f \<in> set (drop BATCH_SIZE ?q)" using that w by blast
      with dw have "uid f \<notin> uid ` set ?b" by (rule distinct_map_append_disjoint)
      then have "g'' = g'" using g'' u ug by simp
      then show ?thesis using g'f by simp
    qed
    have y: "g'' = f\<lparr>status := PROCESSING\<rparr>" if "f \<in> set ?b"
    proof -
      have "uid g' \<in> uid ` set ?b" using that u ug by force
      then have "g'' = g'\<lparr>status := PROCESSING\<rparr>" using g'' by simp
      then show ?thesis using g'f by auto
    qed
    from x y show "(f \<in> set (waiting ?r) \<longrightarrow> g'' = (if status f = IDLE then f\<lparr>status := QUEUED\<rparr> else f))
       \<and> (f \<in> set ?b \<longrightarrow> g'' = f\<lparr>status := PROCESSING\<rparr>)"
      by blast
  qed
qed

lemma exec_stageOk:
  assumes ex: "exec host (processQueue_start now now' s) evs = Some r"
      and d: "distinct (map uid (files s))"
  shows "stageOk r"
proof -
  have "pendingOk r \<and> closureOk r \<and> stageOk r"
    by (rule exec_invariant [OF ex, where P = "\<lambda>a. pendingOk a \<and> closureOk a \<and> stageOk a"])
       (use d in \<open>auto intro: start_pendingOk start_closureOk start_stageOk
                    step_pendingOk step_closureOk step_stageOk\<close>)
  then show ?thesis by simp
qed

lemma resume_takes_next_batch:
  assumes "step host r (Resume t) = Some r'"
  shows "phase r = Delaying"
    and "inflight r' = (if phase r' = Converting then take BATCH_SIZE (waiting r) else inflight r)"
    and "waiting r' = drop BATCH_SIZE (waiting r)"
proof -
  from assms show ph: "phase r = Delaying"
    and "inflight r' = (if phase r' = Converting then take BATCH_SIZE (waiting r) else inflight r)"
    by (auto simp: processQueue_loop_def Let_def waiting_def array_slice_def split: if_splits)
  from assms ph have r': "r' = processQueue_loop t (r\<lparr>index := index r + BATCH_SIZE\<rparr>)"
    by (auto split: if_splits)
  show "waiting r' = drop BATCH_SIZE (waiting r)"
  proof (cases "index r + BATCH_SIZE < length (queue r)")
    case True
    then show ?thesis unfolding r' using ph by (simp add: loop_more waiting_def add.commute)
  next
    case False
    then show ?thesis unfolding r' using ph by (simp add: loop_end waiting_def)
  qed
qed

lemma start_dispatch:
  "inflight (processQueue_start now now' s) = take BATCH_SIZE (filter eligible (files s))"
  "waiting (processQueue_start now now' s) = drop BATCH_SIZE (filter eligible (files s))"
  by (simp_all add: processQueue_start_def Let_def processQueue_loop_def waiting_def array_slice_def)

lemma in_map_fixed: "x \<in> set xs \<Longrightarrow> h x = x \<Longrightarrow> x \<in> set (map h xs)"
  by (induction xs) auto

lemma step_keeps:
  assumes st: "step host r e = Some r'" and p: "pendingOk r"
      and f: "f \<in> set (files (app r))" and out: "uid f \<notin> uid ` set (queue r)"
      and e: "e \<noteq> RemoveFile (uid f)"
  shows "f \<in> set (files (app r'))"
proof -
  note fs = step_files [OF st]
  show ?thesis
  proof (cases e)
    case (Settle f0)
    have "f0 \<in> set (remaining r)" using st Settle step_settle_member by blast
    then have "uid f0 \<in> uid ` set (queue r)" using p by (auto simp: pendingOk_def)
    with out have "uid f \<noteq> uid f0" by auto
    then have "f \<in> set (updateFileStatus (uid f0) (settleUpdate host f0) (files (app r)))"
      unfolding updateFileStatus_def using f by (intro in_map_fixed) simp_all
    then show ?thesis using fs Settle by simp
  next
    case WaveDone
    then show ?thesis using fs f by simp
  next
    case (Resume now)
    let ?b = "array_slice (queue r) (index r + BATCH_SIZE) (index r + BATCH_SIZE + BATCH_SIZE)"
    have "uid ` set ?b \<subseteq> uid ` set (queue r)"
      using array_slice_subset [of "queue r"] by blast
    with out have "uid f \<notin> uid ` set ?b" by auto
    then have "f \<in> set (markProcessing ?b (files (app r)))"
      unfolding markProcessing_def using f by (intro in_map_fixed) simp_all
    then show ?thesis using fs Resume by simp
  next
    case (FilesAdded n)
    then show ?thesis using fs f by simp
  next
    case (RemoveFile i)
    then show ?thesis using fs f e by auto
  qed
qed

lemma exec_keeps:
  assumes "exec host r evs = Some r'" and "pendingOk r"
      and "f \<in> set (files (app r))" and "uid f \<notin> uid ` set (queue r)"
      and "RemoveFile (uid f) \<notin> set evs"
  shows "f \<in> set (files (app r'))"
  using assms
proof (induction evs arbitrary: r)
  case Nil
  then show ?case by simp
next
  case (Cons e evs)
  then obtain r1 where st: "step host r e = Some r1" and rest: "exec host r1 evs = Some r'"
    by (auto split: option.splits)
  have "e \<noteq> RemoveFile (uid f)" "RemoveFile (uid f) \<notin> set evs" using Cons.prems(5) by auto
  moreover from this have "f \<in> set (files (app r1))"
    using step_keeps [OF st Cons.prems(2,3,4)] by simp
  moreover have "pendingOk r1" using st Cons.prems(2) by (rule step_pendingOk)
  moreover have "uid f \<notin> uid ` set (queue r1)" using step_const(1) [OF st] Cons.prems(4) by simp
  ultimately show ?case using Cons.IH [OF rest] by blast
qed

lemma start_keeps:
  assumes d: "distinct (map uid (files s))" and f: "f \<in> set (files s)" and ne: "\<not> eligible f"
  shows "f \<in> set (files (app (processQueue_start now now' s)))"
    and "uid f \<notin> uid ` set (queue (processQueue_start now now' s))"
proof -
  let ?q = "filter eligible (files s)"
  let ?b = "array_slice ?q 0 BATCH_SIZE"
  show out: "uid f \<notin> uid ` set (queue (processQueue_start now now' s))"
    unfolding start_fields using eligible_of_uid [OF d f] ne by blast
  have "uid ` set ?b \<subseteq> uid ` set ?q" using array_slice_subset [of ?q 0 BATCH_SIZE] by blast
  with out have nb: "uid f \<notin> uid ` set ?b" by (auto simp: start_fields)
  have "status f \<noteq> IDLE" using ne by (simp add: eligible_def)
  then have m: "f \<in> set (markQueued (files s))"
    unfolding markQueued_def using f by (intro in_map_fixed) simp_all
  have "f \<in> set (markProcessing ?b (markQueued (files s)))"
    unfolding markProcessing_def using m nb by (intro in_map_fixed) simp_all
  then show "f \<in> set (files (app (processQueue_start now now' s)))"
    by (simp add: start_fields)
qed

lemma run_keeps_untouched:
  assumes ex: "exec host (processQueue_start now now' s) evs = Some r"
      and d: "distinct (map uid (files s))"
      and f: "f \<in> set (files s)" and ne: "\<not> eligible f"
      and nr: "RemoveFile (uid f) \<notin> set evs"
  shows "f \<in> set (files (app r))"
  using exec_keeps [OF ex start_pendingOk [OF d] start_keeps [OF d f ne] nr] .

lemma run_keeps_added:
  assumes ex: "exec host (processQueue_start now now' s) (evs1 @ FilesAdded n # evs2) = Some r"
      and d: "distinct (map uid (files s))"
      and x: "x \<in> set n" and nr: "RemoveFile (fst x) \<notin> set evs2"
  shows "newFileData x \<in> set (files (app r))"
proof -
  from ex obtain r1 where r1: "exec host (processQueue_start now now' s) evs1 = Some r1"
    and rest: "exec host r1 (FilesAdded n # evs2) = Some r"
    by (auto simp: exec_append split: option.splits)
  from rest obtain r2 where st: "step host r1 (FilesAdded n) = Some r2" and r2: "exec host r2 evs2 = Some r"
    by (auto split: option.splits)
  from exec_run_invariants [OF r1 d] have p1: "pendingOk r1" and c1: "closureOk r1" by simp_all
  have p2: "pendingOk r2" using st p1 by (rule step_pendingOk)
  have "files (app r2) = files (app r1) @ map newFileData n" using step_files [OF st] by simp
  then have inn: "newFileData x \<in> set (files (app r2))" using x by simp
  have "fst x \<notin> uid ` set (snapshot r1)"
    using st x by (auto simp: list_all_iff split: if_splits)
  moreover have "uid ` set (queue r1) \<subseteq> uid ` set (snapshot r1)" using c1 by (auto simp: closureOk_def)
  ultimately have "uid (newFileData x) \<notin> uid ` set (queue r2)"
    using step_const(1) [OF st] by (auto simp: newFileData_fresh)
  moreover have "RemoveFile (uid (newFileData x)) \<notin> set evs2" using nr by (simp add: newFileData_fresh)
  ultimately show ?thesis using exec_keeps [OF r2 p2 inn] by blast
qed

lemma step_keeps_uid:
  assumes st: "step host r e = Some r'" and u: "u \<in> uid ` set (files (app r))" and e: "e \<noteq> RemoveFile u"
  shows "u \<in> uid ` set (files (app r'))"
proof -
  note fs = step_files [OF st]
  have m: "uid ` set xs = set (map uid xs)" for xs :: "FileData list" by simp
  show ?thesis
  proof (cases e)
    case (Settle f0)
    then show ?thesis using fs u unfolding m by (simp only: Event.case map_uid_settle)
  next
    case WaveDone
    then show ?thesis using fs u by simp
  next
    case (Resume now)
    then show ?thesis using fs u unfolding m by (simp only: Event.case map_uid_markProcessing)
  next
    case (FilesAdded n)
    then show ?thesis using fs u by auto
  next
    case (RemoveFile i)
    then show ?thesis using fs u e by auto
  qed
qed

lemma exec_keeps_uid:
  assumes "exec host r evs = Some r'" and "u \<in> uid ` set (files (app r))" and "RemoveFile u \<notin> set evs"
  shows "u \<in> uid ` set (files (app r'))"
  using assms
proof (induction evs arbitrary: r)
  case Nil
  then show ?case by simp
next
  case (Cons e evs)
  then obtain r1 where st: "step host r e = Some r1" and rest: "exec host r1 evs = Some r'"
    by (auto split: option.splits)
  have "e \<noteq> RemoveFile u" "RemoveFile u \<notin> set evs" using Cons.prems(3) by auto
  moreover from this have "u \<in> uid ` set (files (app r1))"
    using step_keeps_uid [OF st Cons.prems(2)] by simp
  ultimately show ?case using Cons.IH [OF rest] by blast
qed

lemma start_uids: "uid ` set (files (app (processQueue_start now now' s))) = uid ` set (files s)"
proof -
  have "set (map uid (files (app (processQueue_start now now' s)))) = set (map uid (files s))"
    by (simp only: start_fields map_uid_markProcessing map_uid_markQueued)
  then show ?thesis by simp
qed

subsection \<open>The claims about a run\<close>

lemma runInOrder_exec:
  "\<exists>r. exec host (processQueue_start now now' s) (inOrder t (filter eligible (files s))) = Some r
        \<and> phase r = Finished \<and> runInOrder host now now' t s = app r"
  using run_inOrder [of host now now' s t] by (auto simp: runInOrder_def)

lemma waves_lengths:
  "list_all2 (\<lambda>w b. mset w = mset b) ws bs \<Longrightarrow> map length ws = map length bs"
  by (induction rule: list_all2_induct) (auto dest: mset_eq_length)

text \<open>
  What holds of the counters at every point of every run: total is the size of the
  store when the run began, processed is at most the number of eligible items, and
  success plus failed exceeds processed by what the two counters held before the run.
\<close>

lemma run_stats_invariant:
  assumes "exec host (processQueue_start now now' s) evs = Some r"
  shows "total (stats (app r)) = length (files s)"
    and "processed (stats (app r)) \<le> length (filter eligible (files s))"
    and "success (stats (app r)) + failed (stats (app r)) =
           success (stats s) + failed (stats s) + processed (stats (app r))"
proof -
  let ?q = "filter eligible (files s)"
  from exec_potential [OF assms] have
    t: "total (stats (app r)) = length (files s)" and
    p: "processed (stats (app r)) + length (remaining r) = length ?q" and
    a: "success (stats (app r)) + length (filter (converts host) (remaining r)) =
          success (stats s) + length (filter (converts host) ?q)" and
    b: "failed (stats (app r)) + length (filter (\<lambda>f. \<not> converts host f) (remaining r)) =
          failed (stats s) + length (filter (\<lambda>f. \<not> converts host f) ?q)"
    by (simp_all add: start_fields)
  show "total (stats (app r)) = length (files s)" by (rule t)
  show "processed (stats (app r)) \<le> length ?q" using p by simp
  have "length (filter (converts host) xs) + length (filter (\<lambda>f. \<not> converts host f) xs) = length xs" for xs
    by (rule sum_length_filter_compl)
  from this [of "remaining r"] this [of ?q] p a b
  show "success (stats (app r)) + failed (stats (app r)) =
           success (stats s) + failed (stats s) + processed (stats (app r))"
    by linarith
qed

text \<open>
  C2 at a second run. After a first run over a valid and an undecodable file the
  counters are total 2, processed 2, success 1, failed 1. When the run is started
  again, one item is eligible, but the counters read total 2, processed 0, success 1,
  failed 1; at its end they read total 2, processed 1, success 1, failed 2.
\<close>

theorem second_run_stats:
  "map status (files afterFirstRun) = [COMPLETED, ERROR]
   \<and> stats afterFirstRun =
       \<lparr>total = 2, processed = 2, success = 1, failed = 1, startTime = Some 0, endTime = Some 2\<rparr>
   \<and> length (filter eligible (files afterFirstRun)) = 1
   \<and> stats (app (processQueue_start 10 11 afterFirstRun)) =
       \<lparr>total = 2, processed = 0, success = 1, failed = 1, startTime = Some 10, endTime = Some 2\<rparr>
   \<and> stats (runInOrder sampleHost 10 11 12 afterFirstRun) =
       \<lparr>total = 2, processed = 1, success = 1, failed = 2, startTime = Some 10, endTime = Some 12\<rparr>"
proof -
  have a: "map status (files afterFirstRun) = [COMPLETED, ERROR]" by code_simp
  have b: "stats afterFirstRun =
       \<lparr>total = 2, processed = 2, success = 1, failed = 1, startTime = Some 0, endTime = Some 2\<rparr>"
    by code_simp
  have c: "length (filter eligible (files afterFirstRun)) = 1" by code_simp
  have d: "stats (app (processQueue_start 10 11 afterFirstRun)) =
       \<lparr>total = 2, processed = 0, success = 1, failed = 1, startTime = Some 10, endTime = Some 2\<rparr>"
    by code_simp
  have e: "stats (runInOrder sampleHost 10 11 12 afterFirstRun) =
       \<lparr>total = 2, processed = 1, success = 1, failed = 2, startTime = Some 10, endTime = Some 12\<rparr>"
    by code_simp
  show ?thesis by (intro conjI a b c d e)
qed

text \<open>
  The waves of every run carried to its end: the items settled between one firing of
  the inter-batch timer and the next are, group by group and in order, a rearrangement
  of the consecutive batches \<^verbatim>\<open>queue.slice(i, i + 5)\<close> of the eligible items; the
  batches concatenate to the queue in its order, and each holds between one and five
  items. When the store is exactly twelve items, all eligible valid JPEGs, no failure
  has been counted and no item is removed during the run, the groups have sizes 5, 5, 2
  and the run ends with total = 12, processed = 12, failed = 0.
\<close>

lemma scheduler_waves:
  assumes "exec host (processQueue_start now now' s) evs = Some r" and "phase r = Finished"
  shows "list_all2 (\<lambda>w b. mset w = mset b) (settledWaves [] evs) (batchesFrom 0 (filter eligible (files s)))
       \<and> concat (batchesFrom 0 (filter eligible (files s))) = filter eligible (files s)
       \<and> (\<forall>b \<in> set (batchesFrom 0 (filter eligible (files s))). b \<noteq> [] \<and> length b \<le> 5)
       \<and> (length (files s) = 12 \<and> (\<forall>f \<in> set (files s). eligible f \<and> validJpeg host f)
            \<and> failed (stats s) = 0 \<and> \<not> list_ex isRemoval evs \<longrightarrow>
          map length (settledWaves [] evs) = [5, 5, 2]
          \<and> total (stats (app r)) = 12 \<and> processed (stats (app r)) = 12 \<and> failed (stats (app r)) = 0)"
proof -
  let ?q = "filter eligible (files s)"
  have w: "list_all2 (\<lambda>w b. mset w = mset b) (settledWaves [] evs) (batchesFrom 0 ?q)"
    using assms by (rule run_waves)
  have c: "concat (batchesFrom 0 ?q) = ?q"
    by (simp add: batches_concat)
  have z: "\<forall>b \<in> set (batchesFrom 0 ?q). b \<noteq> [] \<and> length b \<le> 5"
    using batches_size [of _ 0 ?q] by (auto simp: BATCH_SIZE_def)
  have sc: "map length (settledWaves [] evs) = [5, 5, 2]
          \<and> total (stats (app r)) = 12 \<and> processed (stats (app r)) = 12 \<and> failed (stats (app r)) = 0"
    if h: "length (files s) = 12" "\<forall>f \<in> set (files s). eligible f \<and> validJpeg host f" "failed (stats s) = 0"
  proof -
    have q: "?q = files s" using h(2) by simp
    have "filter (\<lambda>f. \<not> converts host f) (files s) = []"
      using h(2) by (simp add: converts_iff)
    then show ?thesis
      using waves_lengths [OF w] batches_lengths_12 [of ?q] run_final_stats [OF assms] h(1,3)
      by (simp add: q)
  qed
  have sc': "length (files s) = 12 \<and> (\<forall>f \<in> set (files s). eligible f \<and> validJpeg host f)
            \<and> failed (stats s) = 0 \<and> \<not> list_ex isRemoval evs \<longrightarrow>
          map length (settledWaves [] evs) = [5, 5, 2]
          \<and> total (stats (app r)) = 12 \<and> processed (stats (app r)) = 12 \<and> failed (stats (app r)) = 0"
    using sc by (intro impI) (elim conjE)
  show ?thesis by (intro conjI) (rule w, rule c, rule z, rule sc')
qed

lemma scheduler_waves_twelve:
  "\<exists>r. exec openHost (processQueue_start 0 1 twelveItems)
          (inOrder 2 (filter eligible (files twelveItems))) = Some r
      \<and> phase r = Finished
      \<and> length (files twelveItems) = 12
      \<and> list_all (\<lambda>f. eligible f \<and> validJpeg openHost f) (files twelveItems)
      \<and> failed (stats twelveItems) = 0
      \<and> \<not> list_ex isRemoval (inOrder 2 (filter eligible (files twelveItems)))
      \<and> map length (settledWaves [] (inOrder 2 (filter eligible (files twelveItems)))) = [5, 5, 2]
      \<and> total (stats (app r)) = 12 \<and> processed (stats (app r)) = 12 \<and> failed (stats (app r)) = 0"
proof -
  let ?evs = "inOrder 2 (filter eligible (files twelveItems))"
  from run_inOrder [of openHost 0 1 twelveItems 2] obtain r where
    ex: "exec openHost (processQueue_start 0 1 twelveItems) ?evs = Some r" and fin: "phase r = Finished"
    by blast
  have a: "length (files twelveItems) = 12"
    by code_simp
  have b: "list_all (\<lambda>f. eligible f \<and> validJpeg openHost f) (files twelveItems)"
    by code_simp
  have c: "failed (stats twelveItems) = 0"
    by code_simp
  have d: "\<not> list_ex isRemoval ?evs" by (rule inOrder_no_removal)
  from b have b': "\<forall>f \<in> set (files twelveItems). eligible f \<and> validJpeg openHost f"
    by (simp only: list_all_iff)
  have e: "map length (settledWaves [] ?evs) = [5, 5, 2]
      \<and> total (stats (app r)) = 12 \<and> processed (stats (app r)) = 12 \<and> failed (stats (app r)) = 0"
    by (rule scheduler_waves [OF ex fin, THEN conjunct2, THEN conjunct2, THEN conjunct2, THEN mp])
       (intro conjI a b' c d)
  show ?thesis
    by (rule exI [of _ r]) (intro conjI ex fin a b c d e [THEN conjunct1]
          e [THEN conjunct2, THEN conjunct1] e [THEN conjunct2, THEN conjunct2, THEN conjunct1]
          e [THEN conjunct2, THEN conjunct2, THEN conjunct2])
qed

text \<open>
  C3. Twelve valid files are added to a store that holds one COMPLETED item of an
  earlier run, and \<^verbatim>\<open>processQueue\<close> runs on a host where every conversion succeeds.
  The twelve added items are the eligible ones and the batches have sizes 5, 5, 2. At
  the click the first five are PROCESSING and the other seven QUEUED; the first wave is
  not over while one of its five is pending; once the five have settled they are
  COMPLETED and the seven are still QUEUED while the timer runs; when it fires the next
  five are PROCESSING. The run ends with all thirteen items COMPLETED, processed = 12
  and failed = 0, and with total = 13 and success = 13: total is \<^verbatim>\<open>files.length\<close>,
  the size of the store, not the number of eligible items.
\<close>

theorem twelve_beside_done_item:
  "map status (files besideDone) = COMPLETED # replicate 12 IDLE
   \<and> length (filter eligible (files besideDone)) = 12
   \<and> list_all (validJpeg openHost) (filter eligible (files besideDone))
   \<and> stats besideDone =
        \<lparr>total = 1, processed = 1, success = 1, failed = 0, startTime = Some 0, endTime = Some 2\<rparr>
   \<and> map length (batchesFrom 0 (filter eligible (files besideDone))) = [5, 5, 2]
   \<and> map length (settledWaves [] (inOrder 12 (filter eligible (files besideDone)))) = [5, 5, 2]
   \<and> map status (files (app (processQueue_start 10 11 besideDone))) =
        COMPLETED # replicate 5 PROCESSING @ replicate 7 QUEUED
   \<and> exec openHost (processQueue_start 10 11 besideDone)
        (map Settle (take 4 (inflight (processQueue_start 10 11 besideDone))) @ [WaveDone]) = None
   \<and> map_option (\<lambda>r. (phase r, map status (files (app r))))
        (exec openHost (processQueue_start 10 11 besideDone)
           (map Settle (inflight (processQueue_start 10 11 besideDone)) @ [WaveDone])) =
        Some (Delaying, replicate 6 COMPLETED @ replicate 7 QUEUED)
   \<and> map_option (\<lambda>r. (phase r, map status (files (app r))))
        (exec openHost (processQueue_start 10 11 besideDone)
           (map Settle (inflight (processQueue_start 10 11 besideDone)) @ [WaveDone, Resume 12])) =
        Some (Converting, replicate 6 COMPLETED @ replicate 5 PROCESSING @ replicate 2 QUEUED)
   \<and> map status (files (runInOrder openHost 10 11 12 besideDone)) = replicate 13 COMPLETED
   \<and> stats (runInOrder openHost 10 11 12 besideDone) =
        \<lparr>total = 13, processed = 12, success = 13, failed = 0, startTime = Some 10, endTime = Some 12\<rparr>"
proof -
  have a: "map status (files besideDone) = COMPLETED # replicate 12 IDLE" by code_simp
  have b: "length (filter eligible (files besideDone)) = 12" by code_simp
  have c: "list_all (validJpeg openHost) (filter eligible (files besideDone))" by code_simp
  have d: "stats besideDone =
        \<lparr>total = 1, processed = 1, success = 1, failed = 0, startTime = Some 0, endTime = Some 2\<rparr>"
    by code_simp
  have e: "map length (batchesFrom 0 (filter eligible (files besideDone))) = [5, 5, 2]"
    using b by (rule batches_lengths_12)
  have f: "map length (settledWaves [] (inOrder 12 (filter eligible (files besideDone)))) = [5, 5, 2]"
    by code_simp
  have g: "map status (files (app (processQueue_start 10 11 besideDone))) =
        COMPLETED # replicate 5 PROCESSING @ replicate 7 QUEUED" by code_simp
  have h: "exec openHost (processQueue_start 10 11 besideDone)
        (map Settle (take 4 (inflight (processQueue_start 10 11 besideDone))) @ [WaveDone]) = None"
    by code_simp
  have i: "map_option (\<lambda>r. (phase r, map status (files (app r))))
        (exec openHost (processQueue_start 10 11 besideDone)
           (map Settle (inflight (processQueue_start 10 11 besideDone)) @ [WaveDone])) =
        Some (Delaying, replicate 6 COMPLETED @ replicate 7 QUEUED)"
    by code_simp
  have j: "map_option (\<lambda>r. (phase r, map status (files (app r))))
        (exec openHost (processQueue_start 10 11 besideDone)
           (map Settle (inflight (processQueue_start 10 11 besideDone)) @ [WaveDone, Resume 12])) =
        Some (Converting, replicate 6 COMPLETED @ replicate 5 PROCESSING @ replicate 2 QUEUED)"
    by code_simp
  have k: "map status (files (runInOrder openHost 10 11 12 besideDone)) = replicate 13 COMPLETED"
    by code_simp
  have l: "stats (runInOrder openHost 10 11 12 besideDone) =
        \<lparr>total = 13, processed = 12, success = 13, failed = 0, startTime = Some 10, endTime = Some 12\<rparr>"
    by code_simp
  show ?thesis by (intro conjI a b c d e f g h i j k l)
qed

text \<open>
  The first suspension of \<^verbatim>\<open>processQueue\<close>: the queue, what the bulk update does to the
  statuses, and the store once the first batch is marked PROCESSING.
\<close>

lemma start_marks_idle:
  "queue (processQueue_start now now' s) = filter (\<lambda>f. status f = IDLE \<or> status f = ERROR) (files s)
   \<and> map status (markQueued (files s)) = map (\<lambda>f. if status f = IDLE then QUEUED else status f) (files s)
   \<and> files (app (processQueue_start now now' s)) =
       map (\<lambda>g. if uid g \<in> uid ` set (array_slice (filter eligible (files s)) 0 BATCH_SIZE)
                then g\<lparr>status := PROCESSING\<rparr>
                else if status g = IDLE then g\<lparr>status := QUEUED\<rparr> else g) (files s)"
proof -
  have "filter eligible (files s) = filter (\<lambda>f. status f = IDLE \<or> status f = ERROR) (files s)"
    by (rule filter_cong) (simp_all add: eligible_def)
  moreover have "map status (markQueued fs) = map (\<lambda>f. if status f = IDLE then QUEUED else status f) fs" for fs
    by (induction fs) (simp_all add: markQueued_def)
  moreover have "markProcessing b (markQueued fs) =
       map (\<lambda>g. if uid g \<in> uid ` set b then g\<lparr>status := PROCESSING\<rparr>
                else if status g = IDLE then g\<lparr>status := QUEUED\<rparr> else g) fs" for b fs
    by (induction fs) (simp_all add: markProcessing_def markQueued_def)
  ultimately show ?thesis by (simp add: start_fields)
qed

text \<open>
  C4, as the code has it. The queue of a run is the items that are IDLE or ERROR, in
  the order of the store. The bulk update turns the status of the IDLE items into QUEUED
  and leaves every other item, the ERROR ones included, as it is. The first batch is the
  first five members of the queue, and the others wait. At every point of the run (the
  identifiers of the store being distinct), a stored item with the identifier of a
  waiting member is that member as it was at the click, IDLE turned into QUEUED, so a
  member that was in ERROR is still in ERROR; a stored item with the identifier of a
  member whose conversion is pending is that member with status PROCESSING; and a member
  of which no removal has happened is stored. When the timer fires, the next five
  waiting members become the pending batch and the others go on waiting.
\<close>

theorem eligible_items_until_dispatch:
  assumes ex: "exec host (processQueue_start now now' s) evs = Some r"
      and d: "distinct (map uid (files s))"
  shows "queue r = filter (\<lambda>f. status f = IDLE \<or> status f = ERROR) (files s)
       \<and> map status (markQueued (files s)) = map (\<lambda>f. if status f = IDLE then QUEUED else status f) (files s)
       \<and> inflight (processQueue_start now now' s) = take BATCH_SIZE (queue r)
       \<and> waiting (processQueue_start now now' s) = drop BATCH_SIZE (queue r)
       \<and> (\<forall>g \<in> set (files (app r)). \<forall>f \<in> set (queue r). uid g = uid f \<longrightarrow>
             (f \<in> set (waiting r) \<longrightarrow> g = (if status f = IDLE then f\<lparr>status := QUEUED\<rparr> else f))
           \<and> (f \<in> set (inflight r) \<longrightarrow> g = f\<lparr>status := PROCESSING\<rparr>))
       \<and> (\<forall>f \<in> set (queue r). RemoveFile (uid f) \<notin> set evs \<longrightarrow> (\<exists>g \<in> set (files (app r)). uid g = uid f))
       \<and> (\<forall>t r'. step host r (Resume t) = Some r' \<longrightarrow>
             waiting r' = drop BATCH_SIZE (waiting r)
           \<and> (phase r' = Converting \<longrightarrow> inflight r' = take BATCH_SIZE (waiting r)))"
proof -
  have q0: "queue r = filter eligible (files s)"
    using exec_const [OF ex] by (simp add: start_fields)
  have q: "queue r = filter (\<lambda>f. status f = IDLE \<or> status f = ERROR) (files s)"
    using start_marks_idle [of now now' s] exec_const [OF ex] by simp
  have m: "map status (markQueued (files s)) = map (\<lambda>f. if status f = IDLE then QUEUED else status f) (files s)"
    using start_marks_idle [of now now' s] by simp
  have i0: "inflight (processQueue_start now now' s) = take BATCH_SIZE (queue r)"
    by (simp only: q0 start_dispatch)
  have w0: "waiting (processQueue_start now now' s) = drop BATCH_SIZE (queue r)"
    by (simp only: q0 start_dispatch)
  have v: "\<forall>g \<in> set (files (app r)). \<forall>f \<in> set (queue r). uid g = uid f \<longrightarrow>
             (f \<in> set (waiting r) \<longrightarrow> g = (if status f = IDLE then f\<lparr>status := QUEUED\<rparr> else f))
           \<and> (f \<in> set (inflight r) \<longrightarrow> g = f\<lparr>status := PROCESSING\<rparr>)"
    using exec_stageOk [OF ex d] unfolding stageOk_def .
  have p: "\<forall>f \<in> set (queue r). RemoveFile (uid f) \<notin> set evs \<longrightarrow> (\<exists>g \<in> set (files (app r)). uid g = uid f)"
  proof (intro ballI impI)
    fix f assume f: "f \<in> set (queue r)" and nr: "RemoveFile (uid f) \<notin> set evs"
    from f q0 have "f \<in> set (files s)" by simp
    then have "uid f \<in> uid ` set (files (app (processQueue_start now now' s)))"
      unfolding start_uids by (rule imageI)
    from exec_keeps_uid [OF ex this nr] show "\<exists>g \<in> set (files (app r)). uid g = uid f" by auto
  qed
  have w: "\<forall>t r'. step host r (Resume t) = Some r' \<longrightarrow>
             waiting r' = drop BATCH_SIZE (waiting r)
           \<and> (phase r' = Converting \<longrightarrow> inflight r' = take BATCH_SIZE (waiting r))"
  proof (intro allI impI)
    fix t r' assume st: "step host r (Resume t) = Some r'"
    from resume_takes_next_batch [OF st]
    show "waiting r' = drop BATCH_SIZE (waiting r)
           \<and> (phase r' = Converting \<longrightarrow> inflight r' = take BATCH_SIZE (waiting r))"
      by simp
  qed
  show ?thesis by (intro conjI) (rule q, rule m, rule i0, rule w0, rule v, rule p, rule w)
qed

theorem failed_item_not_queued_counterexample:
  "map status (files afterFirstRun) = [COMPLETED, ERROR]
   \<and> map status (markQueued (files afterFirstRun)) = [COMPLETED, ERROR]
   \<and> map status (files (app (processQueue_start 10 11 afterFirstRun))) = [COMPLETED, PROCESSING]"
proof -
  have a: "map status (files afterFirstRun) = [COMPLETED, ERROR]" by code_simp
  have b: "map status (markQueued (files afterFirstRun)) = [COMPLETED, ERROR]" by code_simp
  have c: "map status (files (app (processQueue_start 10 11 afterFirstRun))) = [COMPLETED, PROCESSING]"
    by code_simp
  show ?thesis by (intro conjI a b c)
qed

theorem eligible_items_until_dispatch_witness:
  "distinct (map uid (files mixedStore))
   \<and> map status (files mixedStore) = replicate 7 ERROR @ [IDLE]
   \<and> map status (queue (processQueue_start 10 11 mixedStore)) = replicate 7 ERROR @ [IDLE]
   \<and> map status (files (app (processQueue_start 10 11 mixedStore))) =
        replicate 5 PROCESSING @ [ERROR, ERROR, QUEUED]
   \<and> (\<exists>r r'. exec sampleHost (processQueue_start 10 11 mixedStore) firstWaveSettles = Some r
         \<and> RemoveFile (uid (queue r ! 5)) \<notin> set firstWaveSettles
         \<and> map status (waiting r) = [ERROR, ERROR, IDLE]
         \<and> map status (files (app r)) = replicate 7 ERROR @ [QUEUED]
         \<and> list_all (\<lambda>g. list_all (\<lambda>f. uid g = uid f \<longrightarrow>
               (f \<in> set (waiting r) \<longrightarrow> g = (if status f = IDLE then f\<lparr>status := QUEUED\<rparr> else f))
             \<and> (f \<in> set (inflight r) \<longrightarrow> g = f\<lparr>status := PROCESSING\<rparr>)) (queue r)) (files (app r))
         \<and> list_all (\<lambda>f. RemoveFile (uid f) \<notin> set firstWaveSettles \<longrightarrow>
               list_ex (\<lambda>g. uid g = uid f) (files (app r))) (queue r)
         \<and> step sampleHost r (Resume 12) = Some r'
         \<and> phase r' = Converting
         \<and> inflight r' = take BATCH_SIZE (waiting r)
         \<and> waiting r' = []
         \<and> map status (files (app r')) = replicate 5 ERROR @ replicate 3 PROCESSING)"
proof -
  let ?r0 = "processQueue_start 10 11 mixedStore"
  have d: "distinct (map uid (files mixedStore))" by code_simp
  have s0: "map status (files mixedStore) = replicate 7 ERROR @ [IDLE]" by code_simp
  have sq: "map status (queue ?r0) = replicate 7 ERROR @ [IDLE]" by code_simp
  have s1: "map status (files (app ?r0)) = replicate 5 PROCESSING @ [ERROR, ERROR, QUEUED]" by code_simp
  have "exec sampleHost ?r0 (firstWaveSettles @ [Resume 12]) \<noteq> None" by code_simp
  then obtain r r' where ex: "exec sampleHost ?r0 firstWaveSettles = Some r"
    and st: "step sampleHost r (Resume 12) = Some r'"
    and ex': "exec sampleHost ?r0 (firstWaveSettles @ [Resume 12]) = Some r'"
    by (auto simp: exec_append split: option.splits)
  have "map_option (\<lambda>r. RemoveFile (uid (queue r ! 5)) \<notin> set firstWaveSettles)
          (exec sampleHost ?r0 firstWaveSettles) = Some True"
    by code_simp
  then have nr: "RemoveFile (uid (queue r ! 5)) \<notin> set firstWaveSettles" by (simp add: ex)
  have "map_option (\<lambda>r. map status (waiting r)) (exec sampleHost ?r0 firstWaveSettles) = Some [ERROR, ERROR, IDLE]"
    by code_simp
  then have a: "map status (waiting r) = [ERROR, ERROR, IDLE]" by (simp add: ex)
  have "map_option (\<lambda>r. map status (files (app r))) (exec sampleHost ?r0 firstWaveSettles)
          = Some (replicate 7 ERROR @ [QUEUED])"
    by code_simp
  then have b: "map status (files (app r)) = replicate 7 ERROR @ [QUEUED]" by (simp add: ex)
  have "map_option phase (exec sampleHost ?r0 (firstWaveSettles @ [Resume 12])) = Some Converting"
    by code_simp
  then have c: "phase r' = Converting" by (simp add: ex')
  have "map_option (\<lambda>r. map status (files (app r))) (exec sampleHost ?r0 (firstWaveSettles @ [Resume 12]))
          = Some (replicate 5 ERROR @ replicate 3 PROCESSING)"
    by code_simp
  then have e: "map status (files (app r')) = replicate 5 ERROR @ replicate 3 PROCESSING" by (simp add: ex')
  have "map_option waiting (exec sampleHost ?r0 (firstWaveSettles @ [Resume 12])) = Some []"
    by code_simp
  then have w': "waiting r' = []" by (simp add: ex')
  note t = eligible_items_until_dispatch [OF ex d]
  have f: "list_all (\<lambda>g. list_all (\<lambda>f. uid g = uid f \<longrightarrow>
               (f \<in> set (waiting r) \<longrightarrow> g = (if status f = IDLE then f\<lparr>status := QUEUED\<rparr> else f))
             \<and> (f \<in> set (inflight r) \<longrightarrow> g = f\<lparr>status := PROCESSING\<rparr>)) (queue r)) (files (app r))"
    using t [THEN conjunct2, THEN conjunct2, THEN conjunct2, THEN conjunct2, THEN conjunct1]
    unfolding list_all_iff .
  have p: "list_all (\<lambda>f. RemoveFile (uid f) \<notin> set firstWaveSettles \<longrightarrow>
               list_ex (\<lambda>g. uid g = uid f) (files (app r))) (queue r)"
    using t [THEN conjunct2, THEN conjunct2, THEN conjunct2, THEN conjunct2, THEN conjunct2, THEN conjunct1]
    unfolding list_all_iff list_ex_iff .
  have g: "inflight r' = take BATCH_SIZE (waiting r)"
    using t [THEN conjunct2, THEN conjunct2, THEN conjunct2, THEN conjunct2, THEN conjunct2, THEN conjunct2]
      st c by blast
  show ?thesis
    by (intro conjI d s0 sq s1 exI [of _ r] exI [of _ r'] ex nr a b f p st c g w' e)
qed

lemma reachable_twoItems: "reachable twoItems"
  unfolding twoItems_def
  by (rule reachable.added [OF reachable.initial]) (simp_all add: initialState_def)

lemma reachable_afterFirstRun: "reachable afterFirstRun"
proof -
  from runInOrder_exec [of sampleHost 0 1 twoItems 2] obtain r where
    "exec sampleHost (processQueue_start 0 1 twoItems) (inOrder 2 (filter eligible (files twoItems))) = Some r"
    "phase r = Finished" "runInOrder sampleHost 0 1 2 twoItems = app r"
    by blast
  then show ?thesis
    using reachable.ran [OF reachable_twoItems] by (simp add: afterFirstRun_def)
qed

text \<open>
  C5, as the code has it. In every state the application reaches between runs and at
  every point of a run started there, each stored item holds an artifact exactly if it
  is COMPLETED, and holds a message if it is in ERROR. (The status is one field of the
  item. The converse for the message fails: see the counterexample.)
\<close>

theorem store_invariant:
  assumes "reachable s" and "exec host (processQueue_start now now' s) evs = Some r"
  shows "(\<forall>g \<in> set (files s). (pdfBlob g \<noteq> None \<longleftrightarrow> status g = COMPLETED) \<and> (status g = ERROR \<longrightarrow> error g \<noteq> None))
       \<and> (\<forall>g \<in> set (files (app r)). (pdfBlob g \<noteq> None \<longleftrightarrow> status g = COMPLETED) \<and> (status g = ERROR \<longrightarrow> error g \<noteq> None))"
proof -
  from reachable_ok [OF assms(1)] have d: "distinct (map uid (files s))"
    and ok: "\<forall>g \<in> set (files s). itemOk g" by simp_all
  from run_storeOk [OF assms(2) d ok] have ok': "\<forall>g \<in> set (files (app r)). itemOk g" .
  show ?thesis using ok ok' unfolding itemOk_def by (intro conjI)
qed

theorem stale_error_counterexample:
  "map status (files (app (processQueue_start 10 11 afterFirstRun))) = [COMPLETED, PROCESSING]
   \<and> map error (files (app (processQueue_start 10 11 afterFirstRun))) = [None, Some ''Failed to convert'']"
proof -
  have a: "map status (files (app (processQueue_start 10 11 afterFirstRun))) = [COMPLETED, PROCESSING]"
    by code_simp
  have b: "map error (files (app (processQueue_start 10 11 afterFirstRun))) = [None, Some ''Failed to convert'']"
    by code_simp
  show ?thesis by (intro conjI a b)
qed

theorem store_invariant_witness:
  "reachable afterFirstRun
   \<and> exec sampleHost (processQueue_start 10 11 afterFirstRun) [] = Some (processQueue_start 10 11 afterFirstRun)
   \<and> list_all (\<lambda>g. (pdfBlob g \<noteq> None \<longleftrightarrow> status g = COMPLETED) \<and> (status g = ERROR \<longrightarrow> error g \<noteq> None))
        (files afterFirstRun)
   \<and> list_all (\<lambda>g. (pdfBlob g \<noteq> None \<longleftrightarrow> status g = COMPLETED) \<and> (status g = ERROR \<longrightarrow> error g \<noteq> None))
        (files (app (processQueue_start 10 11 afterFirstRun)))
   \<and> map status (files (app (processQueue_start 10 11 afterFirstRun))) = [COMPLETED, PROCESSING]"
proof -
  have ex: "exec sampleHost (processQueue_start 10 11 afterFirstRun) [] = Some (processQueue_start 10 11 afterFirstRun)"
    by simp
  have st: "map status (files (app (processQueue_start 10 11 afterFirstRun))) = [COMPLETED, PROCESSING]"
    by code_simp
  from store_invariant [OF reachable_afterFirstRun ex] reachable_afterFirstRun ex st
  show ?thesis unfolding list_all_iff by blast
qed

text \<open>
  C6, as the code has it. In every run carried to its end with no removal, every
  eligible item is counted once as processed, the valid ones as successes and the
  others as failures; a stored item with the identifier of an eligible item that fails
  is in ERROR with the fixed message "Failed to convert" (whatever the kind of the
  failure), one that converts is COMPLETED with its document; and from every store the
  run that settles the batches in order reaches its end.
\<close>

theorem failures_do_not_abort:
  assumes "exec host (processQueue_start now now' s) evs = Some r" and "phase r = Finished"
      and "distinct (map uid (files s))" and "\<not> list_ex isRemoval evs"
  shows "processed (stats (app r)) = length (filter eligible (files s))
       \<and> success (stats (app r)) =
           success (stats s) + length (filter (validJpeg host) (filter eligible (files s)))
       \<and> failed (stats (app r)) =
           failed (stats s) + length (filter (\<lambda>f. \<not> validJpeg host f) (filter eligible (files s)))
       \<and> (\<forall>g \<in> set (files (app r)). \<forall>f \<in> set (files s). eligible f \<and> uid g = uid f \<longrightarrow>
             (case convertImageToPDF host f of
                Inl err \<Rightarrow> status g = ERROR \<and> error g = Some ''Failed to convert''
              | Inr blob \<Rightarrow> status g = COMPLETED \<and> pdfBlob g = Some blob))
       \<and> (\<exists>r'. exec host (processQueue_start now now' s) (inOrder t (filter eligible (files s))) = Some r'
               \<and> phase r' = Finished)"
proof -
  have inv: "outcomesOk host r"
    using exec_run_invariants [OF assms(1,3)] by simp
  have q: "queue r = filter eligible (files s)"
    using exec_const [OF assms(1)] by (simp add: start_fields)
  have rem: "remaining r = []" using assms(2) by (simp add: remaining_def)
  have items: "\<forall>g \<in> set (files (app r)). \<forall>f \<in> set (files s). eligible f \<and> uid g = uid f \<longrightarrow>
             (case convertImageToPDF host f of
                Inl err \<Rightarrow> status g = ERROR \<and> error g = Some ''Failed to convert''
              | Inr blob \<Rightarrow> status g = COMPLETED \<and> pdfBlob g = Some blob)"
  proof (intro ballI impI)
    fix g f assume "g \<in> set (files (app r))" "f \<in> set (files s)" "eligible f \<and> uid g = uid f"
    then have "settledAs host f g" using inv q rem by (auto simp: outcomesOk_def)
    then show "case convertImageToPDF host f of
                Inl err \<Rightarrow> status g = ERROR \<and> error g = Some ''Failed to convert''
              | Inr blob \<Rightarrow> status g = COMPLETED \<and> pdfBlob g = Some blob"
      by (simp add: settledAs_def split: sum.splits)
  qed
  have cv: "converts host = validJpeg host" by (rule ext) (rule converts_iff)
  have ncv: "(\<lambda>f. \<not> converts host f) = (\<lambda>f. \<not> validJpeg host f)" by (simp add: cv)
  note fin = run_final_stats [OF assms(1,2), unfolded cv ncv]
  show ?thesis
    by (intro conjI) (rule fin(2), rule fin(3), rule fin(4), rule items, rule run_inOrder)
qed

theorem failure_message_counterexample:
  "files twoFailing = [corruptItem, pngItem]
   \<and> convertImageToPDF sampleHost corruptItem = Inl ProbeError
   \<and> convertImageToPDF sampleHost pngItem = Inl EncodingError
   \<and> map status (files (runInOrder sampleHost 0 1 2 twoFailing)) = [ERROR, ERROR]
   \<and> map error (files (runInOrder sampleHost 0 1 2 twoFailing)) =
        [Some ''Failed to convert'', Some ''Failed to convert'']"
proof -
  have a: "files twoFailing = [corruptItem, pngItem]" by code_simp
  have b: "convertImageToPDF sampleHost corruptItem = Inl ProbeError" by code_simp
  have c: "convertImageToPDF sampleHost pngItem = Inl EncodingError" by code_simp
  have d: "map status (files (runInOrder sampleHost 0 1 2 twoFailing)) = [ERROR, ERROR]" by code_simp
  have e: "map error (files (runInOrder sampleHost 0 1 2 twoFailing)) =
        [Some ''Failed to convert'', Some ''Failed to convert'']" by code_simp
  show ?thesis by (intro conjI a b c d e)
qed

theorem failures_do_not_abort_witness:
  "\<exists>r. exec sampleHost (processQueue_start 0 1 oneCorrupt)
          (inOrder 2 (filter eligible (files oneCorrupt))) = Some r
      \<and> phase r = Finished
      \<and> distinct (map uid (files oneCorrupt))
      \<and> \<not> list_ex isRemoval (inOrder 2 (filter eligible (files oneCorrupt)))
      \<and> files oneCorrupt = [corruptItem]
      \<and> convertImageToPDF sampleHost corruptItem = Inl ProbeError
      \<and> processed (stats (app r)) = 1 \<and> success (stats (app r)) = 0 \<and> failed (stats (app r)) = 1
      \<and> map status (files (app r)) = [ERROR]
      \<and> map error (files (app r)) = [Some ''Failed to convert'']"
proof -
  let ?evs = "inOrder 2 (filter eligible (files oneCorrupt))"
  from runInOrder_exec [of sampleHost 0 1 oneCorrupt 2] obtain r where
    ex: "exec sampleHost (processQueue_start 0 1 oneCorrupt) ?evs = Some r" and fin: "phase r = Finished"
    and ap: "runInOrder sampleHost 0 1 2 oneCorrupt = app r"
    by blast
  have d: "distinct (map uid (files oneCorrupt))" by code_simp
  have n: "\<not> list_ex isRemoval ?evs" by (rule inOrder_no_removal)
  have fs: "files oneCorrupt = [corruptItem]" by code_simp
  have cv: "convertImageToPDF sampleHost corruptItem = Inl ProbeError" by code_simp
  have q: "length (filter eligible (files oneCorrupt)) = 1" by code_simp
  have v: "length (filter (validJpeg sampleHost) (filter eligible (files oneCorrupt))) = 0" by code_simp
  have nv: "length (filter (\<lambda>f. \<not> validJpeg sampleHost f) (filter eligible (files oneCorrupt))) = 1"
    by code_simp
  have s0: "success (stats oneCorrupt) = 0" "failed (stats oneCorrupt) = 0" by code_simp+
  have st: "map status (files (runInOrder sampleHost 0 1 2 oneCorrupt)) = [ERROR]" by code_simp
  have er: "map error (files (runInOrder sampleHost 0 1 2 oneCorrupt)) = [Some ''Failed to convert'']"
    by code_simp
  note t = failures_do_not_abort [OF ex fin d n, of 2]
  have p1: "processed (stats (app r)) = 1" using t q by simp
  have p2: "success (stats (app r)) = 0" using t v s0 by simp
  have p3: "failed (stats (app r)) = 1" using t nv s0 by simp
  show ?thesis
    by (rule exI [of _ r]) (intro conjI ex fin d n fs cv p1 p2 p3 st [unfolded ap] er [unfolded ap])
qed

text \<open>
  What a run leaves alone, read on the items that are stored: at every point of a run,
  a stored item with the identifier of an item that was neither IDLE nor ERROR when the
  run began is that item, unchanged, and a stored item whose identifier the store did
  not hold when the run began is IDLE, with no artifact and no message.
\<close>

lemma frame_of_stored_items:
  assumes "exec host (processQueue_start now now' s) evs = Some r"
      and "distinct (map uid (files s))"
  shows "\<forall>g \<in> set (files (app r)).
           (\<forall>f \<in> set (files s). uid f = uid g \<and> status f \<noteq> IDLE \<and> status f \<noteq> ERROR \<longrightarrow> g = f)
         \<and> (uid g \<notin> uid ` set (files s) \<longrightarrow> status g = IDLE \<and> pdfBlob g = None \<and> error g = None)"
proof
  fix g assume g: "g \<in> set (files (app r))"
  have k: "frameOk r" using exec_run_invariants [OF assms] by simp
  have q: "queue r = filter eligible (files s)" and sn: "snapshot r = files s"
    using exec_const [OF assms(1)] by (simp_all add: start_fields)
  have a: "g = f" if f: "f \<in> set (files s)" "uid f = uid g" "status f \<noteq> IDLE" "status f \<noteq> ERROR" for f
  proof -
    have "uid g \<notin> uid ` set (queue r)"
    proof
      assume "uid g \<in> uid ` set (queue r)"
      then have "uid f \<in> uid ` set (filter eligible (files s))" using q f(2) by simp
      with assms(2) f(1) have "eligible f" by (rule eligible_of_uid)
      with f(3,4) show False by (simp add: eligible_def)
    qed
    moreover have "uid g \<in> uid ` set (files s)"
    proof -
      have "uid f \<in> uid ` set (files s)" using f(1) by (rule imageI)
      then show ?thesis by (simp only: f(2))
    qed
    ultimately have "g \<in> set (files s)" using k g sn by (auto simp: frameOk_def)
    with assms(2) f(1,2) show ?thesis by (auto intro: same_uid_same_item)
  qed
  have b: "status g = IDLE \<and> pdfBlob g = None \<and> error g = None" if "uid g \<notin> uid ` set (files s)"
  proof -
    have "uid g \<notin> uid ` set (queue r)" using that q by auto
    with k g sn that show ?thesis by (auto simp: frameOk_def)
  qed
  from a b show "(\<forall>f \<in> set (files s). uid f = uid g \<and> status f \<noteq> IDLE \<and> status f \<noteq> ERROR \<longrightarrow> g = f)
         \<and> (uid g \<notin> uid ` set (files s) \<longrightarrow> status g = IDLE \<and> pdfBlob g = None \<and> error g = None)"
    by blast
qed

text \<open>
  C10. At every point of a run, with additions and removals in between (the identifiers
  of the store being distinct): a stored item with the identifier of an item that was
  neither IDLE nor ERROR when the run began is that item, unchanged, and a stored item
  whose identifier the store did not hold when the run began is IDLE, with no artifact
  and no message; an item that was neither IDLE nor ERROR when the run began is still
  in the store, unchanged, unless a removal of it has happened; and an item added during
  the run is in the store as it was added, unless a removal of it has happened since.
\<close>

theorem run_frame:
  assumes ex: "exec host (processQueue_start now now' s) evs = Some r"
      and d: "distinct (map uid (files s))"
  shows "(\<forall>g \<in> set (files (app r)).
           (\<forall>f \<in> set (files s). uid f = uid g \<and> status f \<noteq> IDLE \<and> status f \<noteq> ERROR \<longrightarrow> g = f)
         \<and> (uid g \<notin> uid ` set (files s) \<longrightarrow> status g = IDLE \<and> pdfBlob g = None \<and> error g = None))
       \<and> (\<forall>f \<in> set (files s). status f \<noteq> IDLE \<and> status f \<noteq> ERROR \<and> RemoveFile (uid f) \<notin> set evs \<longrightarrow>
             f \<in> set (files (app r)))
       \<and> (\<forall>evs1 n evs2 x. evs = evs1 @ FilesAdded n # evs2 \<and> x \<in> set n \<and> RemoveFile (fst x) \<notin> set evs2 \<longrightarrow>
             newFileData x \<in> set (files (app r)))"
proof (intro conjI)
  show "\<forall>g \<in> set (files (app r)).
           (\<forall>f \<in> set (files s). uid f = uid g \<and> status f \<noteq> IDLE \<and> status f \<noteq> ERROR \<longrightarrow> g = f)
         \<and> (uid g \<notin> uid ` set (files s) \<longrightarrow> status g = IDLE \<and> pdfBlob g = None \<and> error g = None)"
    using ex d by (rule frame_of_stored_items)
  show "\<forall>f \<in> set (files s). status f \<noteq> IDLE \<and> status f \<noteq> ERROR \<and> RemoveFile (uid f) \<notin> set evs \<longrightarrow>
             f \<in> set (files (app r))"
  proof (intro ballI impI)
    fix f assume f: "f \<in> set (files s)"
      and h: "status f \<noteq> IDLE \<and> status f \<noteq> ERROR \<and> RemoveFile (uid f) \<notin> set evs"
    then have "\<not> eligible f" by (simp add: eligible_def)
    moreover from h have "RemoveFile (uid f) \<notin> set evs" by simp
    ultimately show "f \<in> set (files (app r))" using ex d f by (intro run_keeps_untouched)
  qed
  show "\<forall>evs1 n evs2 x. evs = evs1 @ FilesAdded n # evs2 \<and> x \<in> set n \<and> RemoveFile (fst x) \<notin> set evs2 \<longrightarrow>
             newFileData x \<in> set (files (app r))"
  proof (intro allI impI)
    fix evs1 n evs2 x
    assume h: "evs = evs1 @ FilesAdded n # evs2 \<and> x \<in> set n \<and> RemoveFile (fst x) \<notin> set evs2"
    then have "exec host (processQueue_start now now' s) (evs1 @ FilesAdded n # evs2) = Some r"
      using ex by simp
    from run_keeps_added [OF this d] h show "newFileData x \<in> set (files (app r))" by blast
  qed
qed

theorem run_frame_witness:
  "distinct (map uid (files afterFirstRun))
   \<and> map status (files afterFirstRun) = [COMPLETED, ERROR]
   \<and> RemoveFile (uid (hd (files afterFirstRun))) \<notin> set lateArrival
   \<and> lateArrival = [] @ FilesAdded [(''id-9'', ''blob:9'', sampleFile)]
        # inOrder 12 (filter eligible (files afterFirstRun))
   \<and> RemoveFile ''id-9'' \<notin> set (inOrder 12 (filter eligible (files afterFirstRun)))
   \<and> (\<exists>r. exec sampleHost (processQueue_start 10 11 afterFirstRun) lateArrival = Some r
         \<and> map uid (files (app r)) = [''id-1'', ''id-2'', ''id-9'']
         \<and> map status (files (app r)) = [COMPLETED, ERROR, IDLE]
         \<and> hd (files afterFirstRun) \<in> set (files (app r))
         \<and> newFileData (''id-9'', ''blob:9'', sampleFile) \<in> set (files (app r))
         \<and> list_all (\<lambda>g.
              list_all (\<lambda>f. uid f = uid g \<and> status f \<noteq> IDLE \<and> status f \<noteq> ERROR \<longrightarrow> g = f) (files afterFirstRun)
              \<and> (uid g \<notin> uid ` set (files afterFirstRun) \<longrightarrow>
                    status g = IDLE \<and> pdfBlob g = None \<and> error g = None))
            (files (app r)))"
proof -
  let ?late = "inOrder 12 (filter eligible (files afterFirstRun))"
  have d: "distinct (map uid (files afterFirstRun))" by code_simp
  have s: "map status (files afterFirstRun) = [COMPLETED, ERROR]" by code_simp
  have nr: "RemoveFile (uid (hd (files afterFirstRun))) \<notin> set lateArrival" by code_simp
  have la: "lateArrival = [] @ FilesAdded [(''id-9'', ''blob:9'', sampleFile)] # ?late"
    by (simp add: lateArrival_def)
  have nr9: "RemoveFile ''id-9'' \<notin> set ?late" by code_simp
  have hin: "hd (files afterFirstRun) \<in> set (files afterFirstRun)" by code_simp
  have hst: "status (hd (files afterFirstRun)) = COMPLETED" by code_simp
  have "exec sampleHost (processQueue_start 10 11 afterFirstRun) lateArrival \<noteq> None" by code_simp
  then obtain r where ex: "exec sampleHost (processQueue_start 10 11 afterFirstRun) lateArrival = Some r"
    by blast
  have "map_option (\<lambda>r. map uid (files (app r))) (exec sampleHost (processQueue_start 10 11 afterFirstRun) lateArrival)
          = Some [''id-1'', ''id-2'', ''id-9'']" by code_simp
  then have u: "map uid (files (app r)) = [''id-1'', ''id-2'', ''id-9'']" by (simp add: ex)
  have "map_option (\<lambda>r. map status (files (app r))) (exec sampleHost (processQueue_start 10 11 afterFirstRun) lateArrival)
          = Some [COMPLETED, ERROR, IDLE]" by code_simp
  then have t: "map status (files (app r)) = [COMPLETED, ERROR, IDLE]" by (simp add: ex)
  note th = run_frame [OF ex d]
  have f: "list_all (\<lambda>g.
              list_all (\<lambda>f. uid f = uid g \<and> status f \<noteq> IDLE \<and> status f \<noteq> ERROR \<longrightarrow> g = f) (files afterFirstRun)
              \<and> (uid g \<notin> uid ` set (files afterFirstRun) \<longrightarrow>
                    status g = IDLE \<and> pdfBlob g = None \<and> error g = None))
            (files (app r))"
    using th [THEN conjunct1] unfolding list_all_iff .
  have k: "hd (files afterFirstRun) \<in> set (files (app r))"
    using th [THEN conjunct2, THEN conjunct1] hin hst nr by simp
  have "fst (''id-9'', ''blob:9'', sampleFile) = ''id-9''" by simp
  then have a: "newFileData (''id-9'', ''blob:9'', sampleFile) \<in> set (files (app r))"
    using th [THEN conjunct2, THEN conjunct2, rule_format,
               of "[]" "[(''id-9'', ''blob:9'', sampleFile)]" ?late "(''id-9'', ''blob:9'', sampleFile)"]
      la nr9 by simp
  show ?thesis by (intro conjI d s nr la nr9 exI [of _ r] ex u t k a f)
qed

end
